theory Spec2Isabelle
  imports Main "HOL-Library.Multiset"
begin

section \<open>Data model of \<^verbatim>\<open>task_3.py\<close>\<close>

type_synonym node = string

text \<open>
  A recorded distance is a Python \<^verbatim>\<open>int\<close> or the sentinel \<^verbatim>\<open>float("inf")\<close>.
  Python compares an \<^verbatim>\<open>int\<close> with the float infinity exactly: every int is below it,
  and infinity is neither below nor above itself.
\<close>

datatype dist = Fin int | Infty

instantiation dist :: linorder
begin

fun less_eq_dist :: "dist \<Rightarrow> dist \<Rightarrow> bool" where
  "less_eq_dist (Fin a) (Fin b) = (a \<le> b)"
| "less_eq_dist _ Infty = True"
| "less_eq_dist Infty (Fin _) = False"

fun less_dist :: "dist \<Rightarrow> dist \<Rightarrow> bool" where
  "less_dist (Fin a) (Fin b) = (a < b)"
| "less_dist (Fin _) Infty = True"
| "less_dist Infty _ = False"

instance
proof
  fix x y z :: dist
  show "(x < y) = (x \<le> y \<and> \<not> y \<le> x)" by (cases x; cases y) auto
  show "x \<le> x" by (cases x) auto
  show "x \<le> y \<Longrightarrow> y \<le> z \<Longrightarrow> x \<le> z" by (cases x; cases y; cases z) auto
  show "x \<le> y \<Longrightarrow> y \<le> x \<Longrightarrow> x = y" by (cases x; cases y) auto
  show "x \<le> y \<or> y \<le> x" by (cases x; cases y) auto
qed

end

text \<open>
  \<^verbatim>\<open>distances[current_node] + weight\<close>. An int plus an int is exact; the float infinity
  plus an int stays infinite (the second case is never evaluated by \<^verbatim>\<open>dijkstra\<close>: a node
  taken from the heap has a finite recorded distance).
\<close>

fun dist_add :: "dist \<Rightarrow> int \<Rightarrow> dist" where
  "dist_add (Fin d) w = Fin (d + w)"
| "dist_add Infty w = Infty"

text \<open>The exceptions the code can raise.\<close>

datatype error = KeyError node | IndexError

text \<open>
  \<^verbatim>\<open>@dataclass(order=True) class HeapItem\<close>: field \<^verbatim>\<open>node\<close> is declared with
  \<^verbatim>\<open>compare=False\<close>, so items are ordered by \<^verbatim>\<open>distance\<close> alone.
\<close>

record HeapItem =
  distance :: dist
  node :: node

definition item_lt :: "HeapItem \<Rightarrow> HeapItem \<Rightarrow> bool" where
  "item_lt a b = (distance a < distance b)"

section \<open>The binary heap of \<^verbatim>\<open>heapq\<close>\<close>

text \<open>
  \<^verbatim>\<open>heapq.heappush\<close> and \<^verbatim>\<open>heapq.heappop\<close> are library code; they are modelled after
  CPython's \<^verbatim>\<open>Lib/heapq.py\<close> (the C accelerator runs the same algorithm), on a list
  indexed from 0, with \<^verbatim>\<open><\<close> of \<^verbatim>\<open>HeapItem\<close> as the only comparison.

  \<^verbatim>\<open>_siftdown(heap, startpos, pos)\<close>: move the item at \<^verbatim>\<open>pos\<close> towards the root while it is
  smaller than its parent.
\<close>

function siftdown_loop :: "HeapItem list \<Rightarrow> nat \<Rightarrow> nat \<Rightarrow> HeapItem \<Rightarrow> HeapItem list" where
  "siftdown_loop heap startpos pos newitem =
     (if pos > startpos then
        (let parentpos = (pos - 1) div 2;
             parent = heap ! parentpos
         in if item_lt newitem parent
            then siftdown_loop (heap[pos := parent]) startpos parentpos newitem
            else heap[pos := newitem])
      else heap[pos := newitem])"
  by pat_completeness auto
termination
  by (relation "measure (\<lambda>(heap, startpos, pos, newitem). pos)") auto

declare siftdown_loop.simps [simp del]

definition siftdown :: "HeapItem list \<Rightarrow> nat \<Rightarrow> nat \<Rightarrow> HeapItem list" where
  "siftdown heap startpos pos = siftdown_loop heap startpos pos (heap ! pos)"

text \<open>
  \<^verbatim>\<open>_siftup(heap, pos)\<close>: bubble the smaller child up until a leaf is reached, put the
  item there and sift it back towards \<^verbatim>\<open>pos\<close>.
\<close>

function siftup_loop :: "HeapItem list \<Rightarrow> nat \<Rightarrow> HeapItem list \<times> nat" where
  "siftup_loop heap pos =
     (let endpos = length heap;
          childpos = 2 * pos + 1
      in if childpos < endpos then
           (let rightpos = childpos + 1;
                childpos = (if rightpos < endpos \<and> \<not> item_lt (heap ! childpos) (heap ! rightpos)
                            then rightpos else childpos)
            in siftup_loop (heap[pos := heap ! childpos]) childpos)
         else (heap, pos))"
  by pat_completeness auto
termination
  by (relation "measure (\<lambda>(heap, pos). length heap - pos)") (auto simp: Let_def)

declare siftup_loop.simps [simp del]

definition siftup :: "HeapItem list \<Rightarrow> nat \<Rightarrow> HeapItem list" where
  "siftup heap pos =
     (let newitem = heap ! pos;
          (heap', pos') = siftup_loop heap pos
      in siftdown (heap'[pos' := newitem]) pos pos')"

definition heappush :: "HeapItem list \<Rightarrow> HeapItem \<Rightarrow> HeapItem list" where
  "heappush heap item = siftdown (heap @ [item]) 0 (length heap)"

text \<open>\<^verbatim>\<open>heappop\<close> on an empty list raises \<^verbatim>\<open>IndexError\<close> (from \<^verbatim>\<open>heap.pop()\<close>).\<close>

definition heappop :: "HeapItem list \<Rightarrow> error + (HeapItem \<times> HeapItem list)" where
  "heappop heap =
     (if heap = [] then Inl IndexError
      else let lastelt = last heap;
               heap' = butlast heap
           in if heap' \<noteq> [] then
                (let returnitem = heap' ! 0
                 in Inr (returnitem, siftup (heap'[0 := lastelt]) 0))
              else Inr (lastelt, heap'))"

section \<open>\<^verbatim>\<open>class Graph\<close>\<close>

text \<open>
  \<^verbatim>\<open>self.adjacency: Dict[str, List[Tuple[str, int]]]\<close>, as an association list in the
  dict's insertion order. It is read with \<^verbatim>\<open>map_of\<close> (the dict lookup) and iterated over
  by its keys.
\<close>

type_synonym graph = "(node \<times> (node \<times> int) list) list"

text \<open>\<^verbatim>\<open>self.adjacency.setdefault(source, []).append((target, weight))\<close>\<close>

fun setdefault_append :: "graph \<Rightarrow> node \<Rightarrow> node \<times> int \<Rightarrow> graph" where
  "setdefault_append [] k e = [(k, [e])]"
| "setdefault_append ((k', es) # g) k e =
     (if k' = k then (k', es @ [e]) # g else (k', es) # setdefault_append g k e)"

definition add_edge :: "graph \<Rightarrow> node \<Rightarrow> node \<Rightarrow> int \<Rightarrow> bool \<Rightarrow> graph" where
  "add_edge g source target weight bidirectional =
     (let g1 = setdefault_append g source (target, weight)
      in if bidirectional then setdefault_append g1 target (source, weight) else g1)"

text \<open>A dict has each key once, and \<^verbatim>\<open>add_edge\<close> keeps it so.\<close>

lemma setdefault_append_keys:
  "fst ` set (setdefault_append g k e) = insert k (fst ` set g)"
proof (induction g)
  case Nil
  then show ?case by simp
next
  case (Cons a g)
  obtain k' es where a: "a = (k', es)" by (cases a)
  show ?case
  proof (cases "k' = k")
    case True
    with a show ?thesis by auto
  next
    case False
    with a Cons.IH show ?thesis by (simp add: insert_commute)
  qed
qed

lemma setdefault_append_distinct:
  "distinct (map fst g) \<Longrightarrow> distinct (map fst (setdefault_append g k e))"
proof (induction g)
  case Nil
  then show ?case by simp
next
  case (Cons a g)
  obtain k' es where a: "a = (k', es)" by (cases a)
  show ?case
  proof (cases "k' = k")
    case True
    with a Cons.prems show ?thesis by simp
  next
    case False
    with a Cons show ?thesis by (simp add: setdefault_append_keys)
  qed
qed

lemma add_edge_distinct:
  "distinct (map fst g) \<Longrightarrow> distinct (map fst (add_edge g source target weight bidirectional))"
  by (simp add: add_edge_def Let_def setdefault_append_distinct)

subsection \<open>\<^verbatim>\<open>Graph.dijkstra\<close>\<close>

record state =
  distances :: "node \<rightharpoonup> dist"
  previous_nodes :: "node \<rightharpoonup> node option"
  heap :: "HeapItem list"
  visited_nodes :: "node set"

text \<open>Lines 25 to 29: the tables are built from the keys of \<^verbatim>\<open>self.adjacency\<close>.\<close>

definition init_state :: "graph \<Rightarrow> node \<Rightarrow> state" where
  "init_state g start =
     \<lparr>distances = (map_of (map (\<lambda>(n, es). (n, Infty)) g))(start \<mapsto> Fin 0),
      previous_nodes = map_of (map (\<lambda>(n, es). (n, None)) g),
      heap = [\<lparr>distance = Fin 0, node = start\<rparr>],
      visited_nodes = {}\<rparr>"

text \<open>
  Lines 39 to 43, the body of the \<^verbatim>\<open>for\<close> loop for one \<^verbatim>\<open>(neighbor, weight)\<close>. Both
  \<^verbatim>\<open>distances[current_node]\<close> and \<^verbatim>\<open>distances[neighbor]\<close> raise \<^verbatim>\<open>KeyError\<close> on a missing key.
\<close>

definition relax :: "node \<Rightarrow> node \<times> int \<Rightarrow> state \<Rightarrow> error + state" where
  "relax current_node e st =
     (case e of (neighbor, weight) \<Rightarrow>
        (case distances st current_node of
           None \<Rightarrow> Inl (KeyError current_node)
         | Some dc \<Rightarrow>
             (let new_distance = dist_add dc weight
              in case distances st neighbor of
                   None \<Rightarrow> Inl (KeyError neighbor)
                 | Some dn \<Rightarrow>
                     if new_distance < dn then
                       Inr (st\<lparr>distances := (distances st)(neighbor \<mapsto> new_distance),
                               previous_nodes := (previous_nodes st)(neighbor \<mapsto> Some current_node),
                               heap := heappush (heap st)
                                         \<lparr>distance = new_distance, node = neighbor\<rparr>\<rparr>)
                     else Inr st)))"

text \<open>The \<^verbatim>\<open>for\<close> loop of line 38; an exception leaves the loop.\<close>

fun relax_all :: "node \<Rightarrow> (node \<times> int) list \<Rightarrow> state \<Rightarrow> error + state" where
  "relax_all current_node [] st = Inr st"
| "relax_all current_node (e # es) st =
     (case relax current_node e st of
        Inl err \<Rightarrow> Inl err
      | Inr st' \<Rightarrow> relax_all current_node es st')"

text \<open>\<^verbatim>\<open>self.adjacency.get(current_node, [])\<close>\<close>

definition neighbors :: "graph \<Rightarrow> node \<Rightarrow> (node \<times> int) list" where
  "neighbors g n = (case map_of g n of None \<Rightarrow> [] | Some es \<Rightarrow> es)"

text \<open>One iteration of the \<^verbatim>\<open>while heap:\<close> loop, lines 32 to 43.\<close>

definition step :: "graph \<Rightarrow> state \<Rightarrow> error + state" where
  "step g st =
     (case heappop (heap st) of
        Inl err \<Rightarrow> Inl err
      | Inr (current_item, heap') \<Rightarrow>
          (let current_node = node current_item
           in if current_node \<in> visited_nodes st then Inr (st\<lparr>heap := heap'\<rparr>)
              else relax_all current_node (neighbors g current_node)
                     (st\<lparr>heap := heap',
                         visited_nodes := insert current_node (visited_nodes st)\<rparr>)))"

text \<open>
  The \<^verbatim>\<open>while heap:\<close> loop ends: an iteration either visits a key of the adjacency map
  for the first time, or leaves the heap one item shorter.
\<close>

lemma length_siftdown_loop [simp]: "length (siftdown_loop h s p x) = length h"
  by (induction h s p x rule: siftdown_loop.induct)
     (subst siftdown_loop.simps, simp add: Let_def)

lemma length_siftdown [simp]: "length (siftdown h s p) = length h"
  by (simp add: siftdown_def)

lemma length_siftup_loop [simp]: "length (fst (siftup_loop h p)) = length h"
  by (induction h p rule: siftup_loop.induct)
     (subst siftup_loop.simps, simp add: Let_def)

lemma length_siftup [simp]: "length (siftup h p) = length h"
  using length_siftup_loop [of h p] by (cases "siftup_loop h p") (simp add: siftup_def)

lemma length_heappush [simp]: "length (heappush h x) = Suc (length h)"
  by (simp add: heappush_def)

lemma heappop_Inr_length:
  "heappop h = Inr (x, h') \<Longrightarrow> h \<noteq> [] \<and> Suc (length h') = length h"
  by (cases h rule: rev_cases) (auto simp: heappop_def Let_def split: if_splits)

lemma heappop_nonempty: "h \<noteq> [] \<Longrightarrow> \<exists>x h'. heappop h = Inr (x, h')"
  by (simp add: heappop_def Let_def)

lemma relax_visited: "relax u e st = Inr st' \<Longrightarrow> visited_nodes st' = visited_nodes st"
  by (auto simp: relax_def Let_def split: prod.splits option.splits if_splits)

lemma relax_all_visited:
  "relax_all u es st = Inr st' \<Longrightarrow> visited_nodes st' = visited_nodes st"
  by (induction es arbitrary: st) (auto split: sum.splits dest: relax_visited)

lemma step_decreases:
  assumes "step g st = Inr st'"
  shows "card (fst ` set g - visited_nodes st') < card (fst ` set g - visited_nodes st)
       \<or> (card (fst ` set g - visited_nodes st') = card (fst ` set g - visited_nodes st)
          \<and> length (heap st') < length (heap st))"
proof -
  from assms obtain it h' where pop: "heappop (heap st) = Inr (it, h')"
    by (auto simp: step_def split: sum.splits)
  then have len: "length h' < length (heap st)"
    using heappop_Inr_length by fastforce
  show ?thesis
  proof (cases "node it \<in> visited_nodes st")
    case True
    with assms pop len show ?thesis by (auto simp: step_def)
  next
    case False
    with assms pop have ra: "relax_all (node it) (neighbors g (node it))
        (st\<lparr>heap := h', visited_nodes := insert (node it) (visited_nodes st)\<rparr>) = Inr st'"
      by (simp add: step_def Let_def)
    then have vis: "visited_nodes st' = insert (node it) (visited_nodes st)"
      using relax_all_visited by fastforce
    show ?thesis
    proof (cases "node it \<in> fst ` set g")
      case True
      have "fst ` set g - visited_nodes st' \<subset> fst ` set g - visited_nodes st"
        using True False vis by auto
      then show ?thesis by (simp add: psubset_card_mono)
    next
      case notkey: False
      then have "neighbors g (node it) = []"
        by (simp add: neighbors_def map_of_eq_None_iff [THEN iffD2])
      with ra have "st' = st\<lparr>heap := h', visited_nodes := insert (node it) (visited_nodes st)\<rparr>"
        by simp
      moreover have "fst ` set g - insert (node it) (visited_nodes st) = fst ` set g - visited_nodes st"
        using notkey by auto
      ultimately show ?thesis using len by simp
    qed
  qed
qed

text \<open>Lines 31 to 45.\<close>

function dijkstra_loop :: "graph \<Rightarrow> state \<Rightarrow> error + state" where
  "dijkstra_loop g st =
     (if heap st = [] then Inr st
      else case step g st of
             Inl err \<Rightarrow> Inl err
           | Inr st' \<Rightarrow> dijkstra_loop g st')"
  by pat_completeness auto
termination
proof (relation "measures [\<lambda>(g, st). card (fst ` set g - visited_nodes st),
                            \<lambda>(g, st). length (heap st)]")
  show "wf (measures [\<lambda>(g, st). card (fst ` set g - visited_nodes st),
                            \<lambda>(g, st). length (heap st)])" by simp
next
  fix g :: graph and st st' :: state
  assume "heap st \<noteq> []" "step g st = Inr st'"
  then show "((g, st'), (g, st)) \<in> measures [\<lambda>(g, st). card (fst ` set g - visited_nodes st),
                            \<lambda>(g, st). length (heap st)]"
    using step_decreases [of g st st'] by auto
qed

declare dijkstra_loop.simps [simp del]

definition dijkstra :: "graph \<Rightarrow> node \<Rightarrow> error + ((node \<rightharpoonup> dist) \<times> (node \<rightharpoonup> node option))" where
  "dijkstra g start =
     (case dijkstra_loop g (init_state g start) of
        Inl err \<Rightarrow> Inl err
      | Inr st \<Rightarrow> Inr (distances st, previous_nodes st))"

subsection \<open>\<^verbatim>\<open>Graph.shortest_path\<close>\<close>

text \<open>
  Lines 54 to 56. The \<^verbatim>\<open>while current_node is not None\<close> loop follows the predecessor
  table and has no bound of its own, so it is a partial function: \<^verbatim>\<open>None\<close> stands for a walk
  that never ends. \<^verbatim>\<open>previous_nodes[current_node]\<close> raises \<^verbatim>\<open>KeyError\<close> on a missing key.
\<close>

partial_function (option) walk ::
  "(node \<rightharpoonup> node option) \<Rightarrow> node option \<Rightarrow> node list \<Rightarrow> (error + node list) option" where
  "walk previous current_node path =
     (case current_node of
        None \<Rightarrow> Some (Inr path)
      | Some c \<Rightarrow>
          (case previous c of
             None \<Rightarrow> Some (Inl (KeyError c))
           | Some nxt \<Rightarrow> walk previous nxt (path @ [c])))"

declare walk.simps [code]

text \<open>Lines 49 to 58; \<^verbatim>\<open>distances.get(end, float("inf"))\<close> reads a missing key as infinity.\<close>

definition shortest_path :: "graph \<Rightarrow> node \<Rightarrow> node \<Rightarrow> (error + node list) option" where
  "shortest_path g start end_node =
     (case dijkstra g start of
        Inl err \<Rightarrow> Some (Inl err)
      | Inr (dists, prevs) \<Rightarrow>
          if (case dists end_node of None \<Rightarrow> Infty | Some d \<Rightarrow> d) = Infty then Some (Inr [])
          else (case walk prevs (Some end_node) [] of
                  None \<Rightarrow> None
                | Some (Inl err) \<Rightarrow> Some (Inl err)
                | Some (Inr path) \<Rightarrow> Some (Inr (rev path))))"

section \<open>\<^verbatim>\<open>class GraphDemo\<close>\<close>

definition demo_edges :: "(node \<times> node \<times> int) list" where
  "demo_edges =
     [(''A'', ''B'', 4), (''A'', ''C'', 2), (''B'', ''C'', 5), (''B'', ''D'', 10),
      (''C'', ''E'', 3), (''E'', ''D'', 4), (''D'', ''F'', 11)]"

definition demo_graph :: graph where
  "demo_graph = fold (\<lambda>(source, target, weight) g. add_edge g source target weight True) demo_edges []"

section \<open>The heap of \<^verbatim>\<open>heapq\<close> is a priority queue\<close>

text \<open>
  The heap invariant of \<^verbatim>\<open>heapq\<close>: no item is smaller than its parent, the parent of
  position \<open>i\<close> being \<open>(i - 1) div 2\<close>.
\<close>

definition heap_inv :: "HeapItem list \<Rightarrow> bool" where
  "heap_inv h = (\<forall>i<length h. 0 < i \<longrightarrow> distance (h ! ((i - 1) div 2)) \<le> distance (h ! i))"

text \<open>A heap with a hole at \<open>p\<close>: the order holds wherever \<open>p\<close> is not involved, and
  the parent of the hole is below the children of the hole.\<close>

definition heap_hole :: "HeapItem list \<Rightarrow> nat \<Rightarrow> bool" where
  "heap_hole h p =
     ((\<forall>i<length h. 0 < i \<longrightarrow> i \<noteq> p \<longrightarrow> (i - 1) div 2 \<noteq> p \<longrightarrow>
          distance (h ! ((i - 1) div 2)) \<le> distance (h ! i))
      \<and> (\<forall>i<length h. 0 < i \<longrightarrow> 0 < p \<longrightarrow> (i - 1) div 2 = p \<longrightarrow>
          distance (h ! ((p - 1) div 2)) \<le> distance (h ! i)))"

definition above_children :: "HeapItem list \<Rightarrow> nat \<Rightarrow> HeapItem \<Rightarrow> bool" where
  "above_children h p x =
     (\<forall>i<length h. 0 < i \<longrightarrow> (i - 1) div 2 = p \<longrightarrow> distance x \<le> distance (h ! i))"

lemma parent_less: "0 < (i::nat) \<Longrightarrow> (i - 1) div 2 < i"
  by arith

lemma heap_inv_hole: "heap_inv h \<Longrightarrow> heap_hole h p"
  unfolding heap_inv_def heap_hole_def
proof (intro conjI allI impI)
  fix i assume h: "\<forall>i<length h. 0 < i \<longrightarrow> distance (h ! ((i - 1) div 2)) \<le> distance (h ! i)"
    and i: "i < length h" "0 < i" "0 < p" "(i - 1) div 2 = p"
  from i have "p < length h" using parent_less [of i] by simp
  with h i have "distance (h ! ((p - 1) div 2)) \<le> distance (h ! p)" by blast
  moreover from h i have "distance (h ! p) \<le> distance (h ! i)" by blast
  ultimately show "distance (h ! ((p - 1) div 2)) \<le> distance (h ! i)" by simp
qed blast

lemma heap_hole_update: "heap_hole (h[p := y]) p = heap_hole h p"
proof -
  have r: "\<And>i. i \<noteq> p \<Longrightarrow> h[p := y] ! i = h ! i" by simp
  have c: "\<And>i::nat. 0 < i \<Longrightarrow> (i - 1) div 2 = p \<Longrightarrow> i \<noteq> p" by arith
  have g: "0 < p \<Longrightarrow> (p - 1) div 2 \<noteq> p" by arith
  have 1: "(\<forall>i<length h. 0 < i \<longrightarrow> i \<noteq> p \<longrightarrow> (i - 1) div 2 \<noteq> p \<longrightarrow>
          distance (h[p := y] ! ((i - 1) div 2)) \<le> distance (h[p := y] ! i))
        = (\<forall>i<length h. 0 < i \<longrightarrow> i \<noteq> p \<longrightarrow> (i - 1) div 2 \<noteq> p \<longrightarrow>
          distance (h ! ((i - 1) div 2)) \<le> distance (h ! i))"
    using r by auto
  have 2: "(\<forall>i<length h. 0 < i \<longrightarrow> 0 < p \<longrightarrow> (i - 1) div 2 = p \<longrightarrow>
          distance (h[p := y] ! ((p - 1) div 2)) \<le> distance (h[p := y] ! i))
        = (\<forall>i<length h. 0 < i \<longrightarrow> 0 < p \<longrightarrow> (i - 1) div 2 = p \<longrightarrow>
          distance (h ! ((p - 1) div 2)) \<le> distance (h ! i))"
    using r c g by auto
  show ?thesis
    unfolding heap_hole_def length_list_update 1 2 ..
qed

lemma siftdown_loop_heap_inv:
  "s = 0 \<Longrightarrow> p < length h \<Longrightarrow> heap_hole h p \<Longrightarrow> above_children h p x \<Longrightarrow>
   heap_inv (siftdown_loop h s p x)"
proof (induction h s p x rule: siftdown_loop.induct)
  case (1 h s p x)
  let ?pp = "(p - 1) div 2"
  have A: "\<And>i. i < length h \<Longrightarrow> 0 < i \<Longrightarrow> i \<noteq> p \<Longrightarrow> (i - 1) div 2 \<noteq> p \<Longrightarrow>
          distance (h ! ((i - 1) div 2)) \<le> distance (h ! i)"
    using "1.prems"(3) unfolding heap_hole_def by blast
  have C: "\<And>i. i < length h \<Longrightarrow> 0 < i \<Longrightarrow> 0 < p \<Longrightarrow> (i - 1) div 2 = p \<Longrightarrow>
          distance (h ! ?pp) \<le> distance (h ! i)"
    using "1.prems"(3) unfolding heap_hole_def by blast
  have B: "\<And>i. i < length h \<Longrightarrow> 0 < i \<Longrightarrow> (i - 1) div 2 = p \<Longrightarrow> distance x \<le> distance (h ! i)"
    using "1.prems"(4) unfolding above_children_def by blast
  show ?case
  proof (cases "0 < p \<and> item_lt x (h ! ?pp)")
    case True
    then have p0: "0 < p" and lt: "distance x < distance (h ! ?pp)"
      by (simp_all add: item_lt_def)
    have ppp: "?pp < p" using p0 by arith
    let ?h' = "h[p := h ! ?pp]"
    have hole': "heap_hole ?h' ?pp"
      unfolding heap_hole_def
    proof (intro conjI allI impI)
      fix i assume i: "i < length ?h'" "0 < i" "i \<noteq> ?pp" "(i - 1) div 2 \<noteq> ?pp"
      then have ip: "i \<noteq> p" by auto
      show "distance (?h' ! ((i - 1) div 2)) \<le> distance (?h' ! i)"
      proof (cases "(i - 1) div 2 = p")
        case True
        then show ?thesis using C [of i] i ip p0 "1.prems"(2) by simp
      next
        case False
        then show ?thesis using A [of i] i ip by simp
      qed
    next
      fix i assume i: "i < length ?h'" "0 < i" "0 < ?pp" "(i - 1) div 2 = ?pp"
      have gp: "(?pp - 1) div 2 < ?pp" using i(3) by arith
      then have gpp: "(?pp - 1) div 2 \<noteq> p" using ppp by simp
      have 1: "distance (h ! ((?pp - 1) div 2)) \<le> distance (h ! ?pp)"
        using A [of ?pp] i(3) ppp "1.prems"(2) gpp by simp
      show "distance (?h' ! ((?pp - 1) div 2)) \<le> distance (?h' ! i)"
      proof (cases "i = p")
        case True
        then show ?thesis using 1 gpp "1.prems"(2) by simp
      next
        case False
        then have "distance (h ! ?pp) \<le> distance (h ! i)"
          using A [of i] i ppp by simp
        then show ?thesis using 1 gpp False by simp
      qed
    qed
    have above': "above_children ?h' ?pp x"
      unfolding above_children_def
    proof (intro allI impI)
      fix i assume i: "i < length ?h'" "0 < i" "(i - 1) div 2 = ?pp"
      show "distance x \<le> distance (?h' ! i)"
      proof (cases "i = p")
        case True
        then show ?thesis using lt "1.prems"(2) by simp
      next
        case False
        then have "distance (h ! ?pp) \<le> distance (h ! i)"
          using A [of i] i ppp by simp
        then show ?thesis using lt False by simp
      qed
    qed
    have "heap_inv (siftdown_loop ?h' s ?pp x)"
      using "1.IH" [OF _ refl refl _ "1.prems"(1) _ hole' above'] True "1.prems"(1,2) ppp
      by simp
    then show ?thesis
      using True "1.prems"(1) by (subst siftdown_loop.simps) (simp add: Let_def)
  next
    case False
    have stop: "0 < p \<Longrightarrow> distance (h ! ?pp) \<le> distance x"
      using False by (simp add: item_lt_def)
    have "heap_inv (h[p := x])"
      unfolding heap_inv_def
    proof (intro allI impI)
      fix i assume i: "i < length (h[p := x])" "0 < i"
      show "distance (h[p := x] ! ((i - 1) div 2)) \<le> distance (h[p := x] ! i)"
      proof (cases "i = p")
        case True
        then show ?thesis using stop i parent_less [of p] by simp
      next
        case ip: False
        show ?thesis
        proof (cases "(i - 1) div 2 = p")
          case True
          then show ?thesis using B [of i] i ip "1.prems"(2) by simp
        next
          case False
          then show ?thesis using A [of i] i ip by simp
        qed
      qed
    qed
    then show ?thesis
      using False "1.prems"(1) by (subst siftdown_loop.simps) (auto simp: Let_def)
  qed
qed

lemma siftdown_loop_mset:
  "p < length h \<Longrightarrow> mset (siftdown_loop h s p x) = mset (h[p := x])"
proof (induction h s p x rule: siftdown_loop.induct)
  case (1 h s p x)
  let ?pp = "(p - 1) div 2"
  show ?case
  proof (cases "s < p \<and> item_lt x (h ! ?pp)")
    case True
    then have ppp: "?pp < p" by arith
    have "mset (siftdown_loop (h[p := h ! ?pp]) s ?pp x) = mset (h[p := h ! ?pp, ?pp := x])"
      using "1.IH" [OF _ refl refl] True ppp "1.prems" by simp
    also have "\<dots> = mset (h[p := x])"
      using mset_swap [of ?pp "h[p := x]" p] ppp "1.prems" by simp
    finally show ?thesis
      using True by (subst siftdown_loop.simps) (simp add: Let_def)
  next
    case False
    then show ?thesis by (subst siftdown_loop.simps) (auto simp: Let_def)
  qed
qed


lemma siftdown_heap_inv:
  "p < length h \<Longrightarrow> heap_hole h p \<Longrightarrow> above_children h p (h ! p) \<Longrightarrow> heap_inv (siftdown h 0 p)"
  by (simp add: siftdown_def siftdown_loop_heap_inv)

lemma siftdown_mset: "p < length h \<Longrightarrow> mset (siftdown h s p) = mset h"
  by (simp add: siftdown_def siftdown_loop_mset)

lemma child_cases: "0 < (i::nat) \<Longrightarrow> (i - 1) div 2 = p \<Longrightarrow> i = 2 * p + 1 \<or> i = 2 * p + 2"
  by arith

lemma siftup_loop_unfold:
  "2 * p + 1 < length h \<Longrightarrow>
   c = (if 2 * p + 1 + 1 < length h \<and> \<not> item_lt (h ! (2 * p + 1)) (h ! (2 * p + 1 + 1))
        then 2 * p + 1 + 1 else 2 * p + 1) \<Longrightarrow>
   siftup_loop h p = siftup_loop (h[p := h ! c]) c"
  by (subst siftup_loop.simps) (simp add: Let_def)

lemma siftup_loop_leaf: "\<not> 2 * p + 1 < length h \<Longrightarrow> siftup_loop h p = (h, p)"
  by (subst siftup_loop.simps) (simp add: Let_def)

lemma siftup_loop_shape:
  "p < length h \<Longrightarrow> siftup_loop h p = (h', p') \<Longrightarrow>
   length h' = length h \<and> p' < length h \<and> \<not> 2 * p' + 1 < length h
   \<and> mset (h'[p' := x]) = mset (h[p := x])"
proof (induction h p rule: siftup_loop.induct)
  case (1 h p)
  show ?case
  proof (cases "2 * p + 1 < length h")
    case False
    then show ?thesis using "1.prems" by (simp add: siftup_loop_leaf)
  next
    case True
    define c where "c = (if 2 * p + 1 + 1 < length h \<and> \<not> item_lt (h ! (2 * p + 1)) (h ! (2 * p + 1 + 1))
        then 2 * p + 1 + 1 else 2 * p + 1)"
    have c: "c < length h" "p < c" using True by (auto simp: c_def)
    have eq: "siftup_loop (h[p := h ! c]) c = (h', p')"
      using siftup_loop_unfold [OF True c_def] "1.prems"(2) by simp
    have IH: "length h' = length (h[p := h ! c]) \<and> p' < length (h[p := h ! c])
        \<and> \<not> 2 * p' + 1 < length (h[p := h ! c])
        \<and> mset (h'[p' := x]) = mset (h[p := h ! c, c := x])"
      using "1.IH" [OF refl refl True refl c_def] c eq by simp
    have "mset (h[p := h ! c, c := x]) = mset (h[p := x])"
      using mset_swap [of c "h[p := x]" p] c "1.prems"(1) by simp
    with IH show ?thesis by simp
  qed
qed

lemma siftup_loop_hole:
  "p < length h \<Longrightarrow> heap_hole h p \<Longrightarrow> siftup_loop h p = (h', p') \<Longrightarrow> heap_hole h' p'"
proof (induction h p rule: siftup_loop.induct)
  case (1 h p)
  show ?case
  proof (cases "2 * p + 1 < length h")
    case False
    then show ?thesis using "1.prems" by (simp add: siftup_loop_leaf)
  next
    case True
    define c where "c = (if 2 * p + 1 + 1 < length h \<and> \<not> item_lt (h ! (2 * p + 1)) (h ! (2 * p + 1 + 1))
        then 2 * p + 1 + 1 else 2 * p + 1)"
    have c: "c < length h" "p < c" "(c - 1) div 2 = p" "0 < c"
      using True by (auto simp: c_def)
    have eq: "siftup_loop (h[p := h ! c]) c = (h', p')"
      using siftup_loop_unfold [OF True c_def] "1.prems"(3) by simp
    have A: "\<And>i. i < length h \<Longrightarrow> 0 < i \<Longrightarrow> i \<noteq> p \<Longrightarrow> (i - 1) div 2 \<noteq> p \<Longrightarrow>
          distance (h ! ((i - 1) div 2)) \<le> distance (h ! i)"
      using "1.prems"(2) unfolding heap_hole_def by blast
    have C: "\<And>i. i < length h \<Longrightarrow> 0 < i \<Longrightarrow> 0 < p \<Longrightarrow> (i - 1) div 2 = p \<Longrightarrow>
          distance (h ! ((p - 1) div 2)) \<le> distance (h ! i)"
      using "1.prems"(2) unfolding heap_hole_def by blast
    have smallest: "distance (h ! c) \<le> distance (h ! i)"
      if "i < length h" "0 < i" "(i - 1) div 2 = p" for i
    proof -
      from child_cases [OF that(2,3)] show ?thesis
      proof
        assume "i = 2 * p + 1"
        then show ?thesis using that(1) by (auto simp: c_def item_lt_def)
      next
        assume "i = 2 * p + 2"
        then show ?thesis using that(1) by (auto simp: c_def item_lt_def)
      qed
    qed
    let ?h1 = "h[p := h ! c]"
    have hole1: "heap_hole ?h1 c"
      unfolding heap_hole_def
    proof (intro conjI allI impI)
      fix i assume i: "i < length ?h1" "0 < i" "i \<noteq> c" "(i - 1) div 2 \<noteq> c"
      show "distance (?h1 ! ((i - 1) div 2)) \<le> distance (?h1 ! i)"
      proof (cases "i = p")
        case True
        then have "(i - 1) div 2 \<noteq> p" using i(2) parent_less [of i] by simp
        then show ?thesis using C [of c] c True i by simp
      next
        case ip: False
        show ?thesis
        proof (cases "(i - 1) div 2 = p")
          case True
          then show ?thesis using smallest [of i] i ip "1.prems"(1) by simp
        next
          case False
          then show ?thesis using A [of i] i ip by simp
        qed
      qed
    next
      fix i assume i: "i < length ?h1" "0 < i" "0 < c" "(i - 1) div 2 = c"
      then have "i \<noteq> p" "c \<noteq> p" using c parent_less [of i] by auto
      then have "distance (h ! c) \<le> distance (h ! i)" using A [of i] i by simp
      then show "distance (?h1 ! ((c - 1) div 2)) \<le> distance (?h1 ! i)"
        using c \<open>i \<noteq> p\<close> "1.prems"(1) by simp
    qed
    show ?thesis
      using "1.IH" [OF refl refl True refl c_def] c hole1 eq by simp
  qed
qed

lemma siftup_heap_inv:
  assumes "p < length h" "heap_hole h p" "p = 0"
  shows "heap_inv (siftup h p)"
proof -
  obtain h' p' where r: "siftup_loop h p = (h', p')" by (cases "siftup_loop h p")
  from siftup_loop_shape [OF assms(1) r]
  have sh: "length h' = length h" "p' < length h" "\<not> 2 * p' + 1 < length h" by auto
  have "heap_hole (h'[p' := h ! p]) p'"
    using siftup_loop_hole [OF assms(1,2) r] by (simp add: heap_hole_update)
  moreover have "above_children (h'[p' := h ! p]) p' x" for x
    unfolding above_children_def
  proof (intro allI impI)
    fix i assume "i < length (h'[p' := h ! p])" "0 < i" "(i - 1) div 2 = p'"
    then have False using child_cases [of i p'] sh by auto
    then show "distance x \<le> distance (h'[p' := h ! p] ! i)" ..
  qed
  ultimately have "heap_inv (siftdown (h'[p' := h ! p]) 0 p')"
    using siftdown_heap_inv [of p' "h'[p' := h ! p]"] sh by simp
  then show ?thesis using r assms(3) by (simp add: siftup_def)
qed

lemma siftup_mset:
  assumes "p < length h"
  shows "mset (siftup h p) = mset h"
proof -
  obtain h' p' where r: "siftup_loop h p = (h', p')" by (cases "siftup_loop h p")
  from siftup_loop_shape [OF assms r, of "h ! p"]
  have "length h' = length h" "p' < length h" "mset (h'[p' := h ! p]) = mset h" by auto
  then show ?thesis using r by (simp add: siftup_def siftdown_mset)
qed

lemma heappush_mset: "mset (heappush h x) = add_mset x (mset h)"
  by (simp add: heappush_def siftdown_mset)

lemma heappush_set: "set (heappush h x) = insert x (set h)"
  using heappush_mset [of h x] by (metis set_mset_add_mset_insert set_mset_mset)

lemma heappush_heap_inv:
  assumes "heap_inv h"
  shows "heap_inv (heappush h x)"
proof -
  have A: "\<And>i. i < length h \<Longrightarrow> 0 < i \<Longrightarrow> distance (h ! ((i - 1) div 2)) \<le> distance (h ! i)"
    using assms unfolding heap_inv_def by blast
  have nochild: "\<And>i. i < Suc (length h) \<Longrightarrow> 0 < i \<Longrightarrow> (i - 1) div 2 \<noteq> length h"
    by arith
  have "heap_hole (h @ [x]) (length h)"
    unfolding heap_hole_def
  proof (intro conjI allI impI)
    fix i assume i: "i < length (h @ [x])" "0 < i" "i \<noteq> length h" "(i - 1) div 2 \<noteq> length h"
    then have "i < length h" by simp
    moreover from this i(2) have "(i - 1) div 2 < length h" using parent_less [of i] by simp
    ultimately show "distance ((h @ [x]) ! ((i - 1) div 2)) \<le> distance ((h @ [x]) ! i)"
      using A [of i] i(2) by (simp add: nth_append)
  next
    fix i assume "i < length (h @ [x])" "0 < i" "(i - 1) div 2 = length h"
    then have False using nochild [of i] by simp
    then show "distance ((h @ [x]) ! ((length h - 1) div 2)) \<le> distance ((h @ [x]) ! i)" ..
  qed
  moreover have "above_children (h @ [x]) (length h) ((h @ [x]) ! length h)"
    unfolding above_children_def using nochild by simp
  ultimately show ?thesis
    unfolding heappush_def by (intro siftdown_heap_inv) simp_all
qed

lemma heap_inv_root_min:
  "heap_inv h \<Longrightarrow> i < length h \<Longrightarrow> distance (h ! 0) \<le> distance (h ! i)"
proof (induction i rule: less_induct)
  case (less i)
  show ?case
  proof (cases "i = 0")
    case True
    then show ?thesis by simp
  next
    case False
    then have p: "(i - 1) div 2 < i" by arith
    with less have "distance (h ! 0) \<le> distance (h ! ((i - 1) div 2))" by simp
    moreover have "distance (h ! ((i - 1) div 2)) \<le> distance (h ! i)"
      using less.prems False unfolding heap_inv_def by simp
    ultimately show ?thesis by simp
  qed
qed

lemma heap_inv_butlast: "heap_inv h \<Longrightarrow> heap_inv (butlast h)"
  unfolding heap_inv_def
proof (intro allI impI)
  fix i assume h: "\<forall>i<length h. 0 < i \<longrightarrow> distance (h ! ((i - 1) div 2)) \<le> distance (h ! i)"
    and i: "i < length (butlast h)" "0 < i"
  then have "(i - 1) div 2 < length (butlast h)" using parent_less [of i] by simp
  with h i show "distance (butlast h ! ((i - 1) div 2)) \<le> distance (butlast h ! i)"
    by (simp add: nth_butlast)
qed

lemma heappop_first: "heappop h = Inr (x, h') \<Longrightarrow> h \<noteq> [] \<and> x = h ! 0"
proof (cases h rule: rev_cases)
  case Nil
  assume "heappop h = Inr (x, h')"
  with Nil show ?thesis by (simp add: heappop_def)
next
  case (snoc ys y)
  assume "heappop h = Inr (x, h')"
  with snoc show ?thesis
    by (cases ys) (auto simp: heappop_def Let_def)
qed

lemma heappop_mset:
  assumes "heappop h = Inr (x, h')"
  shows "mset h = add_mset x (mset h')"
proof (cases h rule: rev_cases)
  case Nil
  with assms show ?thesis by (simp add: heappop_def)
next
  case (snoc ys y)
  show ?thesis
  proof (cases ys)
    case Nil
    with snoc assms show ?thesis by (auto simp: heappop_def)
  next
    case (Cons z zs)
    with snoc assms have x: "x = z" and h': "h' = siftup (y # zs) 0"
      by (auto simp: heappop_def Let_def)
    have "mset h' = add_mset y (mset zs)" unfolding h' by (simp add: siftup_mset)
    with snoc Cons x show ?thesis by simp
  qed
qed

lemma heappop_set: "heappop h = Inr (x, h') \<Longrightarrow> set h = insert x (set h')"
  using heappop_mset [of h x h'] by (metis set_mset_add_mset_insert set_mset_mset)

lemma heappop_heap_inv:
  assumes "heap_inv h" "heappop h = Inr (x, h')"
  shows "heap_inv h'"
proof (cases "butlast h = []")
  case True
  with assms(2) have "h' = []" by (auto simp: heappop_def Let_def split: if_splits)
  then show ?thesis by (simp add: heap_inv_def)
next
  case False
  with assms(2) have h': "h' = siftup ((butlast h)[0 := last h]) 0"
    by (auto simp: heappop_def Let_def split: if_splits)
  have "heap_hole (butlast h) 0"
    using assms(1) by (intro heap_inv_hole heap_inv_butlast)
  then have "heap_hole ((butlast h)[0 := last h]) 0" by (simp add: heap_hole_update)
  moreover have "0 < length ((butlast h)[0 := last h])" using False by (cases "butlast h") simp_all
  ultimately show ?thesis unfolding h' by (intro siftup_heap_inv) simp_all
qed

lemma heappop_min:
  assumes "heap_inv h" "heappop h = Inr (x, h')" "y \<in> set h"
  shows "distance x \<le> distance y"
proof -
  from assms(3) obtain i where "i < length h" "y = h ! i" by (auto simp: in_set_conv_nth)
  then show ?thesis
    using heap_inv_root_min [OF assms(1), of i] heappop_first [OF assms(2)] by simp
qed

lemma heap_inv_singleton: "heap_inv [x]"
  by (simp add: heap_inv_def)

section \<open>Shortest paths and the invariants of the loop\<close>

text \<open>
  The edges of the graph, as \<^verbatim>\<open>dijkstra\<close> reads them: \<open>(v, w)\<close> is in the adjacency list
  of \<open>u\<close>. A path from \<open>s\<close> is a sequence of such edges, and its weight is their sum.
\<close>

definition edge :: "graph \<Rightarrow> node \<Rightarrow> node \<Rightarrow> int \<Rightarrow> bool" where
  "edge g u v w = ((v, w) \<in> set (neighbors g u))"

definition nonneg :: "graph \<Rightarrow> bool" where
  "nonneg g = list_all (\<lambda>(u, es). list_all (\<lambda>(v, w). 0 \<le> w) es) g"

inductive path :: "graph \<Rightarrow> node \<Rightarrow> node \<Rightarrow> int \<Rightarrow> bool" for g s where
  path_start: "path g s s 0"
| path_edge: "path g s u d \<Longrightarrow> edge g u v w \<Longrightarrow> path g s v (d + w)"

definition shortest_distance :: "graph \<Rightarrow> node \<Rightarrow> node \<Rightarrow> int \<Rightarrow> bool" where
  "shortest_distance g s v d = (path g s v d \<and> (\<forall>d'. path g s v d' \<longrightarrow> d \<le> d'))"

lemma edge_iff: "edge g u v w \<longleftrightarrow> (\<exists>es. map_of g u = Some es \<and> (v, w) \<in> set es)"
  by (cases "map_of g u") (simp_all add: edge_def neighbors_def)

lemma edge_nonneg:
  assumes "nonneg g" "edge g u v w"
  shows "0 \<le> w"
proof -
  from assms(2) obtain es where "map_of g u = Some es" "(v, w) \<in> set es"
    unfolding edge_iff by blast
  then have "(u, es) \<in> set g" by (simp add: map_of_SomeD)
  with assms(1) \<open>(v, w) \<in> set es\<close> show ?thesis
    unfolding nonneg_def list_all_iff by fastforce
qed

lemma path_nonneg: "path g s v d \<Longrightarrow> nonneg g \<Longrightarrow> 0 \<le> d"
  by (induction rule: path.induct) (auto dest: edge_nonneg)

lemma edge_key: "edge g u v w \<Longrightarrow> u \<in> fst ` set g"
  unfolding edge_iff by (metis domI dom_map_of_conv_image_fst)

lemma relax_Inr_cases:
  assumes "relax u (v, w) st = Inr st'"
  obtains (keep) dc dn where "distances st u = Some dc" "distances st v = Some dn"
      "\<not> dist_add dc w < dn" "st' = st"
  | (update) dc dn where "distances st u = Some dc" "distances st v = Some dn"
      "dist_add dc w < dn"
      "st' = st\<lparr>distances := (distances st)(v \<mapsto> dist_add dc w),
                previous_nodes := (previous_nodes st)(v \<mapsto> Some u),
                heap := heappush (heap st) \<lparr>distance = dist_add dc w, node = v\<rparr>\<rparr>"
  using assms by (auto simp: relax_def Let_def split: option.splits if_splits)

text \<open>The invariants of the loop, one definition each.\<close>

definition inv_start :: "node \<Rightarrow> state \<Rightarrow> bool" where
  "inv_start s st = (distances st s = Some (Fin 0))"

definition inv_path :: "graph \<Rightarrow> node \<Rightarrow> state \<Rightarrow> bool" where
  "inv_path g s st = (\<forall>v d. distances st v = Some (Fin d) \<longrightarrow> path g s v d)"

definition inv_visited :: "graph \<Rightarrow> node \<Rightarrow> state \<Rightarrow> bool" where
  "inv_visited g s st =
     (\<forall>v\<in>visited_nodes st. \<exists>d. distances st v = Some (Fin d) \<and> (\<forall>d'. path g s v d' \<longrightarrow> d \<le> d'))"

definition inv_relaxed :: "graph \<Rightarrow> (node \<times> node \<times> int) set \<Rightarrow> state \<Rightarrow> bool" where
  "inv_relaxed g P st =
     (\<forall>u v w. u \<in> visited_nodes st \<longrightarrow> edge g u v w \<longrightarrow> (u, v, w) \<notin> P \<longrightarrow>
        (\<exists>du dv. distances st u = Some (Fin du) \<and> distances st v = Some (Fin dv) \<and> dv \<le> du + w))"

definition inv_live :: "state \<Rightarrow> bool" where
  "inv_live st =
     (\<forall>v d. distances st v = Some (Fin d) \<longrightarrow> v \<notin> visited_nodes st \<longrightarrow>
        \<lparr>distance = Fin d, node = v\<rparr> \<in> set (heap st))"

definition inv_heap :: "state \<Rightarrow> bool" where
  "inv_heap st =
     (heap_inv (heap st) \<and>
      (\<forall>it\<in>set (heap st). \<exists>d. distances st (node it) = Some (Fin d) \<and> Fin d \<le> distance it))"

definition inv_core :: "graph \<Rightarrow> node \<Rightarrow> (node \<times> node \<times> int) set \<Rightarrow> state \<Rightarrow> bool" where
  "inv_core g s P st =
     (inv_start s st \<and> inv_path g s st \<and> inv_visited g s st \<and> inv_relaxed g P st
      \<and> inv_live st \<and> inv_heap st)"

lemma init_state_core: "inv_core g s {} (init_state g s)"
  by (auto simp: inv_core_def inv_start_def inv_path_def inv_visited_def inv_relaxed_def
        inv_live_def inv_heap_def init_state_def heap_inv_singleton
        intro: path_start dest!: map_of_SomeD split: if_splits)

lemma inv_relaxed_mono: "inv_relaxed g P st \<Longrightarrow> P \<subseteq> P' \<Longrightarrow> inv_relaxed g P' st"
  unfolding inv_relaxed_def by blast

lemma inv_core_mono: "inv_core g s P st \<Longrightarrow> P \<subseteq> P' \<Longrightarrow> inv_core g s P' st"
  unfolding inv_core_def using inv_relaxed_mono by blast

text \<open>What an improving relaxation from a visited node implies.\<close>

lemma relax_update_facts:
  assumes nn: "nonneg g"
    and core: "inv_core g s P st"
    and u: "u \<in> visited_nodes st"
    and e: "edge g u v w"
    and dc: "distances st u = Some dc"
    and dn: "distances st v = Some dn"
    and lt: "dist_add dc w < dn"
  obtains du where "dc = Fin du" "path g s u du" "path g s v (du + w)"
    "v \<notin> visited_nodes st" "v \<noteq> s" "Fin (du + w) < dn"
proof -
  from core have st: "distances st s = Some (Fin 0)"
    and pa: "\<And>v d. distances st v = Some (Fin d) \<Longrightarrow> path g s v d"
    and vi: "\<And>v. v \<in> visited_nodes st \<Longrightarrow>
               \<exists>d. distances st v = Some (Fin d) \<and> (\<forall>d'. path g s v d' \<longrightarrow> d \<le> d')"
    unfolding inv_core_def inv_start_def inv_path_def inv_visited_def by blast+
  from vi [OF u] dc obtain du where du: "dc = Fin du" by auto
  with dc have pu: "path g s u du" using pa by simp
  then have pv: "path g s v (du + w)" using e by (rule path_edge)
  from lt du have lt': "Fin (du + w) < dn" by simp
  have "v \<notin> visited_nodes st"
  proof
    assume "v \<in> visited_nodes st"
    from vi [OF this] dn obtain dv where "dn = Fin dv" "dv \<le> du + w" using pv by auto
    with lt' show False by simp
  qed
  moreover have "v \<noteq> s"
  proof
    assume "v = s"
    with st dn have "dn = Fin 0" by simp
    moreover have "0 \<le> du + w" using path_nonneg [OF pv nn] .
    ultimately show False using lt' by simp
  qed
  ultimately show ?thesis using that du pu pv lt' by blast
qed

lemma dist_not_less_Fin: "\<not> Fin a < dn \<Longrightarrow> \<exists>dv. dn = Fin dv \<and> dv \<le> a"
  by (cases dn) auto

lemma relax_core:
  assumes nn: "nonneg g"
    and core: "inv_core g s P st"
    and u: "u \<in> visited_nodes st"
    and e: "edge g u v w"
    and r: "relax u (v, w) st = Inr st'"
  shows "inv_core g s (P - {(u, v, w)}) st'"
proof -
  from core have st: "distances st s = Some (Fin 0)"
    and pa: "\<And>v d. distances st v = Some (Fin d) \<Longrightarrow> path g s v d"
    and vi: "\<And>v. v \<in> visited_nodes st \<Longrightarrow>
               \<exists>d. distances st v = Some (Fin d) \<and> (\<forall>d'. path g s v d' \<longrightarrow> d \<le> d')"
    and re: "\<And>u v w. u \<in> visited_nodes st \<Longrightarrow> edge g u v w \<Longrightarrow> (u, v, w) \<notin> P \<Longrightarrow>
               \<exists>du dv. distances st u = Some (Fin du) \<and> distances st v = Some (Fin dv) \<and> dv \<le> du + w"
    and li: "\<And>v d. distances st v = Some (Fin d) \<Longrightarrow> v \<notin> visited_nodes st \<Longrightarrow>
               \<lparr>distance = Fin d, node = v\<rparr> \<in> set (heap st)"
    and hi: "heap_inv (heap st)"
    and hb: "\<And>it. it \<in> set (heap st) \<Longrightarrow>
               \<exists>d. distances st (node it) = Some (Fin d) \<and> Fin d \<le> distance it"
    unfolding inv_core_def inv_start_def inv_path_def inv_visited_def inv_relaxed_def
      inv_live_def inv_heap_def by blast+
  from r show ?thesis
  proof (cases rule: relax_Inr_cases)
    case (keep dc dn)
    from vi [OF u] keep(1) obtain du where du: "dc = Fin du" by auto
    from keep(3) du obtain dv where dv: "dn = Fin dv" "dv \<le> du + w"
      using dist_not_less_Fin [of "du + w" dn] by auto
    have "inv_relaxed g (P - {(u, v, w)}) st"
      unfolding inv_relaxed_def
    proof (intro allI impI)
      fix u' v' w'
      assume a: "u' \<in> visited_nodes st" "edge g u' v' w'" "(u', v', w') \<notin> P - {(u, v, w)}"
      show "\<exists>du dv. distances st u' = Some (Fin du) \<and> distances st v' = Some (Fin dv) \<and> dv \<le> du + w'"
      proof (cases "(u', v', w') = (u, v, w)")
        case True
        then show ?thesis using keep(1,2) du dv by simp
      next
        case False
        with a(3) have "(u', v', w') \<notin> P" by blast
        from re [OF a(1,2) this] show ?thesis .
      qed
    qed
    with core keep(4) show ?thesis by (simp add: inv_core_def)
  next
    case (update dc dn)
    from relax_update_facts [OF nn core u e update(1,2,3)]
    obtain du where du: "dc = Fin du" and pu: "path g s u du" and pv: "path g s v (du + w)"
      and vv: "v \<notin> visited_nodes st" and vs: "v \<noteq> s" and lt: "Fin (du + w) < dn"
      by blast
    have uv: "u \<noteq> v" using u vv by auto
    let ?new = "Fin (du + w)"
    have D: "distances st' = (distances st)(v \<mapsto> ?new)"
      and V: "visited_nodes st' = visited_nodes st"
      and H: "heap st' = heappush (heap st) \<lparr>distance = ?new, node = v\<rparr>"
      using update(4) du by simp_all
    have 1: "inv_start s st'" using st vs by (simp add: inv_start_def D)
    have 2: "inv_path g s st'"
      unfolding inv_path_def D using pa pv by auto
    have 3: "inv_visited g s st'"
      unfolding inv_visited_def D V using vi vv by auto
    have 4: "inv_relaxed g (P - {(u, v, w)}) st'"
      unfolding inv_relaxed_def V
    proof (intro allI impI)
      fix u' v' w'
      assume a: "u' \<in> visited_nodes st" "edge g u' v' w'" "(u', v', w') \<notin> P - {(u, v, w)}"
      then have u'v: "u' \<noteq> v" using vv by auto
      show "\<exists>du dv. distances st' u' = Some (Fin du) \<and> distances st' v' = Some (Fin dv) \<and> dv \<le> du + w'"
      proof (cases "(u', v', w') = (u, v, w)")
        case True
        then show ?thesis using update(1) du uv by (simp add: D)
      next
        case False
        with a(3) have "(u', v', w') \<notin> P" by blast
        from re [OF a(1,2) this] obtain du' dv' where o: "distances st u' = Some (Fin du')"
          "distances st v' = Some (Fin dv')" "dv' \<le> du' + w'"
          by blast
        show ?thesis
        proof (cases "v' = v")
          case True
          with o update(2) lt have "du + w \<le> du' + w'" by simp
          with True o u'v show ?thesis by (simp add: D)
        next
          case False
          with o u'v show ?thesis by (simp add: D)
        qed
      qed
    qed
    have 5: "inv_live st'"
      unfolding inv_live_def V H heappush_set D using li by auto
    have 6: "inv_heap st'"
      unfolding inv_heap_def H heappush_set
    proof (intro conjI ballI)
      show "heap_inv (heappush (heap st) \<lparr>distance = ?new, node = v\<rparr>)"
        using hi by (rule heappush_heap_inv)
    next
      fix it assume "it \<in> insert \<lparr>distance = ?new, node = v\<rparr> (set (heap st))"
      then consider "it = \<lparr>distance = ?new, node = v\<rparr>" | "it \<in> set (heap st)" by auto
      then show "\<exists>d. distances st' (node it) = Some (Fin d) \<and> Fin d \<le> distance it"
      proof cases
        case 1
        then show ?thesis by (simp add: D)
      next
        case 2
        from hb [OF 2] obtain d where d: "distances st (node it) = Some (Fin d)" "Fin d \<le> distance it"
          by blast
        show ?thesis
        proof (cases "node it = v")
          case True
          with d(1) update(2) have "dn = Fin d" by simp
          with lt have "?new < Fin d" by simp
          from less_le_trans [OF this d(2)] have "?new \<le> distance it" by (rule less_imp_le)
          with True show ?thesis by (simp add: D)
        next
          case False
          with d show ?thesis by (simp add: D)
        qed
      qed
    qed
    from 1 2 3 4 5 6 show ?thesis by (simp add: inv_core_def)
  qed
qed

definition pending :: "node \<Rightarrow> (node \<times> int) list \<Rightarrow> (node \<times> node \<times> int) set" where
  "pending u es = (\<lambda>(v, w). (u, v, w)) ` set es"

lemma relax_all_core:
  "nonneg g \<Longrightarrow> u \<in> visited_nodes st \<Longrightarrow> set es \<subseteq> set (neighbors g u) \<Longrightarrow>
   inv_core g s (pending u es) st \<Longrightarrow> relax_all u es st = Inr st' \<Longrightarrow>
   inv_core g s {} st'"
proof (induction es arbitrary: st)
  case Nil
  then show ?case by (simp add: pending_def)
next
  case (Cons e es)
  obtain v w where e: "e = (v, w)" by (cases e)
  from Cons.prems(5) obtain st1 where r1: "relax u (v, w) st = Inr st1"
    and r2: "relax_all u es st1 = Inr st'"
    by (auto simp: e split: sum.splits)
  have ed: "edge g u v w" using Cons.prems(3) by (simp add: e edge_def)
  have "inv_core g s (pending u (e # es) - {(u, v, w)}) st1"
    using relax_core [OF Cons.prems(1) Cons.prems(4) Cons.prems(2) ed r1] .
  moreover have "pending u (e # es) - {(u, v, w)} \<subseteq> pending u es"
    by (auto simp: pending_def e)
  ultimately have "inv_core g s (pending u es) st1" by (rule inv_core_mono)
  moreover have "u \<in> visited_nodes st1" using relax_visited [OF r1] Cons.prems(2) by simp
  moreover have "set es \<subseteq> set (neighbors g u)" using Cons.prems(3) by simp
  ultimately show ?case using Cons.IH [OF Cons.prems(1) _ _ _ r2] by blast
qed

text \<open>Every path from the start ends in a visited node or passes a node that is not
  visited yet and whose recorded distance is at most the weight of the path.\<close>

lemma frontier:
  assumes "path g s v d'" and nn: "nonneg g" and core: "inv_core g s {} st"
  shows "v \<in> visited_nodes st \<or>
         (\<exists>y dy. y \<notin> visited_nodes st \<and> distances st y = Some (Fin dy) \<and> dy \<le> d')"
  using assms(1)
proof (induction rule: path.induct)
  case path_start
  from core have "distances st s = Some (Fin 0)" by (simp add: inv_core_def inv_start_def)
  then show ?case by (cases "s \<in> visited_nodes st") auto
next
  case (path_edge u d v w)
  have w: "0 \<le> w" using edge_nonneg [OF nn path_edge.hyps(2)] .
  from path_edge.IH show ?case
  proof
    assume uv: "u \<in> visited_nodes st"
    from core uv obtain du where du: "distances st u = Some (Fin du)"
      "\<forall>d'. path g s u d' \<longrightarrow> du \<le> d'"
      unfolding inv_core_def inv_visited_def by blast
    from core uv path_edge.hyps(2) obtain du' dv where
      "distances st u = Some (Fin du')" "distances st v = Some (Fin dv)" "dv \<le> du' + w"
      unfolding inv_core_def inv_relaxed_def by blast
    with du path_edge.hyps(1) have "distances st v = Some (Fin dv)" "dv \<le> d + w"
      by auto
    then show ?thesis by (cases "v \<in> visited_nodes st") auto
  next
    assume "\<exists>y dy. y \<notin> visited_nodes st \<and> distances st y = Some (Fin dy) \<and> dy \<le> d"
    then obtain y dy where "y \<notin> visited_nodes st" "distances st y = Some (Fin dy)" "dy \<le> d"
      by blast
    moreover from this w have "dy \<le> d + w" by simp
    ultimately show ?thesis by blast
  qed
qed

text \<open>The node popped from the heap, when not visited yet, has its shortest distance.\<close>

lemma popped_shortest:
  assumes nn: "nonneg g" and core: "inv_core g s {} st"
    and pop: "heappop (heap st) = Inr (it, h')"
    and nv: "node it \<notin> visited_nodes st"
  shows "\<exists>d. distances st (node it) = Some (Fin d) \<and> shortest_distance g s (node it) d"
proof -
  from core have pa: "\<And>v d. distances st v = Some (Fin d) \<Longrightarrow> path g s v d"
    and li: "\<And>v d. distances st v = Some (Fin d) \<Longrightarrow> v \<notin> visited_nodes st \<Longrightarrow>
               \<lparr>distance = Fin d, node = v\<rparr> \<in> set (heap st)"
    and hi: "heap_inv (heap st)"
    and hb: "\<And>it. it \<in> set (heap st) \<Longrightarrow>
               \<exists>d. distances st (node it) = Some (Fin d) \<and> Fin d \<le> distance it"
    unfolding inv_core_def inv_path_def inv_live_def inv_heap_def by blast+
  have "it \<in> set (heap st)" using heappop_set [OF pop] by simp
  from hb [OF this] obtain d where d: "distances st (node it) = Some (Fin d)" "Fin d \<le> distance it"
    by blast
  have "d \<le> d'" if "path g s (node it) d'" for d'
  proof -
    from frontier [OF that nn core] nv obtain y dy where y: "y \<notin> visited_nodes st"
      "distances st y = Some (Fin dy)" "dy \<le> d'" by blast
    from li [OF y(2) y(1)] have "distance it \<le> distance \<lparr>distance = Fin dy, node = y\<rparr>"
      by (rule heappop_min [OF hi pop])
    then have "distance it \<le> Fin dy" by simp
    from order_trans [OF d(2) this] have "d \<le> dy" by simp
    with y(3) show ?thesis by simp
  qed
  with d(1) pa [OF d(1)] show ?thesis unfolding shortest_distance_def by blast
qed

lemma pop_visited_core:
  assumes core: "inv_core g s {} st"
    and pop: "heappop (heap st) = Inr (it, h')"
    and v: "node it \<in> visited_nodes st"
  shows "inv_core g s {} (st\<lparr>heap := h'\<rparr>)"
proof -
  have sub: "set h' \<subseteq> set (heap st)" and all: "set (heap st) = insert it (set h')"
    using heappop_set [OF pop] by auto
  have "inv_live (st\<lparr>heap := h'\<rparr>)"
    unfolding inv_live_def
  proof (intro allI impI)
    fix v d assume a: "distances (st\<lparr>heap := h'\<rparr>) v = Some (Fin d)"
      "v \<notin> visited_nodes (st\<lparr>heap := h'\<rparr>)"
    then have "\<lparr>distance = Fin d, node = v\<rparr> \<in> set (heap st)"
      using core unfolding inv_core_def inv_live_def by simp
    moreover have "\<lparr>distance = Fin d, node = v\<rparr> \<noteq> it" using a(2) v by auto
    ultimately show "\<lparr>distance = Fin d, node = v\<rparr> \<in> set (heap (st\<lparr>heap := h'\<rparr>))"
      using all by simp
  qed
  moreover have "inv_heap (st\<lparr>heap := h'\<rparr>)"
    using core sub heappop_heap_inv [OF _ pop]
    unfolding inv_core_def inv_heap_def by auto
  ultimately show ?thesis
    using core
    unfolding inv_core_def inv_start_def inv_path_def inv_visited_def inv_relaxed_def
    by simp
qed

lemma pop_unvisited_core:
  assumes nn: "nonneg g" and core: "inv_core g s {} st"
    and pop: "heappop (heap st) = Inr (it, h')"
    and nv: "node it \<notin> visited_nodes st"
  shows "inv_core g s (pending (node it) (neighbors g (node it)))
           (st\<lparr>heap := h', visited_nodes := insert (node it) (visited_nodes st)\<rparr>)"
proof -
  let ?st1 = "st\<lparr>heap := h', visited_nodes := insert (node it) (visited_nodes st)\<rparr>"
  have sub: "set h' \<subseteq> set (heap st)" and all: "set (heap st) = insert it (set h')"
    using heappop_set [OF pop] by auto
  from popped_shortest [OF nn core pop nv] obtain d where
    d: "distances st (node it) = Some (Fin d)" "shortest_distance g s (node it) d" by blast
  have 3: "inv_visited g s ?st1"
    using core d unfolding inv_core_def inv_visited_def shortest_distance_def by auto
  have 4: "inv_relaxed g (pending (node it) (neighbors g (node it))) ?st1"
    unfolding inv_relaxed_def
  proof (intro allI impI)
    fix u v w
    assume a: "u \<in> visited_nodes ?st1" "edge g u v w"
      "(u, v, w) \<notin> pending (node it) (neighbors g (node it))"
    have "u \<noteq> node it"
    proof
      assume "u = node it"
      with a(2) have "(u, v, w) \<in> pending (node it) (neighbors g (node it))"
        by (force simp: pending_def edge_def)
      with a(3) show False by simp
    qed
    with a(1) have "u \<in> visited_nodes st" by simp
    with core a(2) show "\<exists>du dv. distances ?st1 u = Some (Fin du)
        \<and> distances ?st1 v = Some (Fin dv) \<and> dv \<le> du + w"
      unfolding inv_core_def inv_relaxed_def by simp
  qed
  have 5: "inv_live ?st1"
    unfolding inv_live_def
  proof (intro allI impI)
    fix v d assume a: "distances ?st1 v = Some (Fin d)" "v \<notin> visited_nodes ?st1"
    then have "\<lparr>distance = Fin d, node = v\<rparr> \<in> set (heap st)"
      using core unfolding inv_core_def inv_live_def by simp
    moreover have "\<lparr>distance = Fin d, node = v\<rparr> \<noteq> it" using a(2) by auto
    ultimately show "\<lparr>distance = Fin d, node = v\<rparr> \<in> set (heap ?st1)"
      using all by simp
  qed
  have 6: "inv_heap ?st1"
    using core sub heappop_heap_inv [OF _ pop]
    unfolding inv_core_def inv_heap_def by auto
  from core 3 4 5 6 show ?thesis
    unfolding inv_core_def inv_start_def inv_path_def by simp
qed

lemma step_Inr_cases:
  assumes "step g st = Inr st'"
  obtains (stale) it h' where "heappop (heap st) = Inr (it, h')" "node it \<in> visited_nodes st"
      "st' = st\<lparr>heap := h'\<rparr>"
  | (visit) it h' where "heappop (heap st) = Inr (it, h')" "node it \<notin> visited_nodes st"
      "relax_all (node it) (neighbors g (node it))
         (st\<lparr>heap := h', visited_nodes := insert (node it) (visited_nodes st)\<rparr>) = Inr st'"
  using assms by (auto simp: step_def Let_def split: sum.splits if_splits)

lemma step_core:
  assumes nn: "nonneg g" and core: "inv_core g s {} st" and step: "step g st = Inr st'"
  shows "inv_core g s {} st'"
  using step
proof (cases rule: step_Inr_cases)
  case (stale it h')
  then show ?thesis using pop_visited_core [OF core] by simp
next
  case (visit it h')
  have "node it \<in> visited_nodes
          (st\<lparr>heap := h', visited_nodes := insert (node it) (visited_nodes st)\<rparr>)"
    by simp
  from relax_all_core [OF nn this subset_refl pop_unvisited_core [OF nn core visit(1,2)] visit(3)]
  show ?thesis .
qed

subsection \<open>The predecessor table\<close>

text \<open>The predecessor table as a relation: \<open>(u, v)\<close> when \<^verbatim>\<open>previous_nodes[v] == u\<close>.\<close>

definition pred_rel :: "(node \<rightharpoonup> node option) \<Rightarrow> (node \<times> node) set" where
  "pred_rel p = {(u, v). p v = Some (Some u)}"

definition pred_sound :: "graph \<Rightarrow> node \<Rightarrow> state \<Rightarrow> bool" where
  "pred_sound g s st =
     (\<forall>v u. previous_nodes st v = Some (Some u) \<longrightarrow>
         u \<in> visited_nodes st \<and> v \<noteq> s \<and>
         (\<exists>w du. edge g u v w \<and> distances st u = Some (Fin du)
                 \<and> distances st v = Some (Fin (du + w))))"

definition pred_total :: "node \<Rightarrow> state \<Rightarrow> bool" where
  "pred_total s st =
     (\<forall>v d. distances st v = Some (Fin d) \<longrightarrow> v \<noteq> s \<longrightarrow>
           (\<exists>u. previous_nodes st v = Some (Some u)))"

definition inv_pred :: "graph \<Rightarrow> node \<Rightarrow> state \<Rightarrow> bool" where
  "inv_pred g s st =
     (pred_sound g s st \<and> pred_total s st
      \<and> wf (pred_rel (previous_nodes st))
      \<and> dom (previous_nodes st) = fst ` set g
      \<and> dom (distances st) = insert s (fst ` set g))"

lemma map_of_const_None:
  "map_of (map (\<lambda>(n, es). (n, c)) g) v = Some x \<Longrightarrow> x = c"
  by (induction g) (auto split: if_splits)

lemma dom_map_of_const: "dom (map_of (map (\<lambda>(n, es). (n, c)) g)) = fst ` set g"
  by (simp add: dom_map_of_conv_image_fst image_image case_prod_unfold)

lemma init_state_pred: "inv_pred g s (init_state g s)"
proof -
  have 1: "previous_nodes (init_state g s) v \<noteq> Some (Some u)" for v u
    using map_of_const_None [of None g v "Some u"] by (auto simp: init_state_def)
  have 2: "distances (init_state g s) v = Some (Fin d) \<Longrightarrow> v = s" for v d
    using map_of_const_None [of Infty g v "Fin d"] by (auto simp: init_state_def split: if_splits)
  have "pred_rel (previous_nodes (init_state g s)) = {}"
    using 1 by (auto simp: pred_rel_def)
  then have 3: "wf (pred_rel (previous_nodes (init_state g s)))" by simp
  have 4: "dom (previous_nodes (init_state g s)) = fst ` set g"
    "dom (distances (init_state g s)) = insert s (fst ` set g)"
    by (simp_all add: init_state_def dom_map_of_const)
  have "pred_sound g s (init_state g s)" unfolding pred_sound_def using 1 by blast
  moreover have "pred_total s (init_state g s)" unfolding pred_total_def using 2 by blast
  ultimately show ?thesis unfolding inv_pred_def using 3 4 by blast
qed

lemma relax_pred:
  assumes nn: "nonneg g"
    and core: "inv_core g s P st"
    and pred: "inv_pred g s st"
    and u: "u \<in> visited_nodes st"
    and e: "edge g u v w"
    and r: "relax u (v, w) st = Inr st'"
  shows "inv_pred g s st'"
  using r
proof (cases rule: relax_Inr_cases)
  case (keep dc dn)
  with pred show ?thesis by simp
next
  case (update dc dn)
  from relax_update_facts [OF nn core u e update(1,2,3)]
  obtain du where du: "dc = Fin du"
    and vv: "v \<notin> visited_nodes st" and vs: "v \<noteq> s"
    by blast
  have uv: "u \<noteq> v" using u vv by auto
  from pred have ps: "pred_sound g s st" and pt: "pred_total s st"
    and p3: "wf (pred_rel (previous_nodes st))"
    and p4: "dom (previous_nodes st) = fst ` set g"
    and p5: "dom (distances st) = insert s (fst ` set g)"
    by (simp_all add: inv_pred_def)
  have p1: "u \<in> visited_nodes st \<and> v \<noteq> s \<and>
         (\<exists>w du. edge g u v w \<and> distances st u = Some (Fin du)
                 \<and> distances st v = Some (Fin (du + w)))"
    if "previous_nodes st v = Some (Some u)" for v u
    using ps that unfolding pred_sound_def by blast
  have p2: "\<exists>u. previous_nodes st v = Some (Some u)"
    if "distances st v = Some (Fin d)" "v \<noteq> s" for v d
    using pt that unfolding pred_total_def by blast
  let ?new = "Fin (du + w)"
  have D: "distances st' = (distances st)(v \<mapsto> ?new)"
    and V: "visited_nodes st' = visited_nodes st"
    and Pr: "previous_nodes st' = (previous_nodes st)(v \<mapsto> Some u)"
    using update(4) du by simp_all
  have 1: "u' \<in> visited_nodes st' \<and> v' \<noteq> s \<and>
         (\<exists>w du. edge g u' v' w \<and> distances st' u' = Some (Fin du)
                 \<and> distances st' v' = Some (Fin (du + w)))"
    if a: "previous_nodes st' v' = Some (Some u')" for v' u'
  proof (cases "v' = v")
    case True
    with a have u': "u' = u" by (simp add: Pr)
    have "distances st' u = Some (Fin du)" "distances st' v = Some (Fin (du + w))"
      using update(1) du uv by (simp_all add: D)
    with e have "\<exists>w du. edge g u v w \<and> distances st' u = Some (Fin du)
                 \<and> distances st' v = Some (Fin (du + w))" by blast
    with True u' u vs V show ?thesis by simp
  next
    case False
    with a have "previous_nodes st v' = Some (Some u')" by (simp add: Pr)
    from p1 [OF this] obtain w' du' where o: "u' \<in> visited_nodes st" "v' \<noteq> s"
      "edge g u' v' w'" "distances st u' = Some (Fin du')"
      "distances st v' = Some (Fin (du' + w'))" by blast
    from o(1) vv have "u' \<noteq> v" by auto
    with o(4,5) False have "distances st' u' = Some (Fin du')"
      "distances st' v' = Some (Fin (du' + w'))" by (simp_all add: D)
    with o(3) have "\<exists>w du. edge g u' v' w \<and> distances st' u' = Some (Fin du)
                 \<and> distances st' v' = Some (Fin (du + w))" by blast
    with o(1,2) V show ?thesis by simp
  qed
  have 2: "\<exists>u. previous_nodes st' v' = Some (Some u)"
    if b: "distances st' v' = Some (Fin d)" "v' \<noteq> s" for v' d
  proof (cases "v' = v")
    case True
    then show ?thesis by (simp add: Pr)
  next
    case False
    with b(1) have "distances st v' = Some (Fin d)" by (simp add: D)
    from p2 [OF this b(2)] False show ?thesis by (simp add: Pr)
  qed
  have 3: "wf (pred_rel (previous_nodes st'))"
  proof -
    have "(v, u) \<notin> (pred_rel (previous_nodes st))\<^sup>*"
    proof
      assume "(v, u) \<in> (pred_rel (previous_nodes st))\<^sup>*"
      then show False
      proof (cases rule: converse_rtranclE)
        case base
        with uv show False by simp
      next
        case (step z)
        then have "previous_nodes st z = Some (Some v)" by (simp add: pred_rel_def)
        from p1 [OF this] vv show False by simp
      qed
    qed
    with p3 have "wf (insert (u, v) (pred_rel (previous_nodes st)))" by (simp add: wf_insert)
    moreover have "pred_rel (previous_nodes st') \<subseteq> insert (u, v) (pred_rel (previous_nodes st))"
      by (auto simp: pred_rel_def Pr split: if_splits)
    ultimately show ?thesis by (rule wf_subset)
  qed
  have "v \<in> dom (distances st)" using update(2) by auto
  with p5 vs have vk: "v \<in> fst ` set g" by simp
  have 4: "dom (previous_nodes st') = fst ` set g" using p4 vk by (auto simp: Pr)
  have 5: "dom (distances st') = insert s (fst ` set g)" using p5 vk by (auto simp: D)
  have "pred_sound g s st'" unfolding pred_sound_def using 1 by blast
  moreover have "pred_total s st'" unfolding pred_total_def using 2 by blast
  ultimately show ?thesis unfolding inv_pred_def using 3 4 5 by blast
qed

lemma relax_all_pred:
  "nonneg g \<Longrightarrow> u \<in> visited_nodes st \<Longrightarrow> set es \<subseteq> set (neighbors g u) \<Longrightarrow>
   inv_core g s (pending u es) st \<Longrightarrow> inv_pred g s st \<Longrightarrow> relax_all u es st = Inr st' \<Longrightarrow>
   inv_pred g s st'"
proof (induction es arbitrary: st)
  case Nil
  then show ?case by simp
next
  case (Cons e es)
  obtain v w where e: "e = (v, w)" by (cases e)
  from Cons.prems(6) obtain st1 where r1: "relax u (v, w) st = Inr st1"
    and r2: "relax_all u es st1 = Inr st'"
    by (auto simp: e split: sum.splits)
  have ed: "edge g u v w" using Cons.prems(3) by (simp add: e edge_def)
  have "inv_core g s (pending u (e # es) - {(u, v, w)}) st1"
    using relax_core [OF Cons.prems(1) Cons.prems(4) Cons.prems(2) ed r1] .
  moreover have "pending u (e # es) - {(u, v, w)} \<subseteq> pending u es"
    by (auto simp: pending_def e)
  ultimately have c1: "inv_core g s (pending u es) st1" by (rule inv_core_mono)
  have p1: "inv_pred g s st1"
    using relax_pred [OF Cons.prems(1) Cons.prems(4) Cons.prems(5) Cons.prems(2) ed r1] .
  have u1: "u \<in> visited_nodes st1" using relax_visited [OF r1] Cons.prems(2) by simp
  have s1: "set es \<subseteq> set (neighbors g u)" using Cons.prems(3) by simp
  from Cons.IH [OF Cons.prems(1) u1 s1 c1 p1 r2] show ?case .
qed

lemma inv_pred_visited_mono:
  assumes "inv_pred g s st" "visited_nodes st \<subseteq> V"
  shows "inv_pred g s (st\<lparr>heap := h, visited_nodes := V\<rparr>)"
proof -
  from assms(1) have "pred_sound g s st" by (simp add: inv_pred_def)
  then have "pred_sound g s (st\<lparr>heap := h, visited_nodes := V\<rparr>)"
    unfolding pred_sound_def using assms(2) by (simp add: subset_iff)
  with assms(1) show ?thesis by (simp add: inv_pred_def pred_total_def)
qed

lemma step_pred:
  assumes nn: "nonneg g" and core: "inv_core g s {} st" and pred: "inv_pred g s st"
    and step: "step g st = Inr st'"
  shows "inv_pred g s st'"
  using step
proof (cases rule: step_Inr_cases)
  case (stale it h')
  have "st\<lparr>heap := h'\<rparr> = st\<lparr>heap := h', visited_nodes := visited_nodes st\<rparr>" by simp
  with stale(3) inv_pred_visited_mono [OF pred subset_refl, of h'] show ?thesis by simp
next
  case (visit it h')
  let ?st1 = "st\<lparr>heap := h', visited_nodes := insert (node it) (visited_nodes st)\<rparr>"
  have a: "node it \<in> visited_nodes ?st1" by simp
  have b: "inv_pred g s ?st1" by (rule inv_pred_visited_mono [OF pred]) auto
  from relax_all_pred [OF nn a subset_refl pop_unvisited_core [OF nn core visit(1,2)] b visit(3)]
  show ?thesis .
qed

definition inv :: "graph \<Rightarrow> node \<Rightarrow> state \<Rightarrow> bool" where
  "inv g s st = (inv_core g s {} st \<and> inv_pred g s st)"

lemma init_state_inv: "inv g s (init_state g s)"
  by (simp add: inv_def init_state_core init_state_pred)

lemma step_inv: "nonneg g \<Longrightarrow> inv g s st \<Longrightarrow> step g st = Inr st' \<Longrightarrow> inv g s st'"
  unfolding inv_def using step_core step_pred by blast

subsection \<open>Runs of the loop\<close>

text \<open>\<open>run g st st'\<close>: the loop, started in state \<open>st\<close>, reaches \<open>st'\<close> after some
  iterations, none of which raised.\<close>

inductive run :: "graph \<Rightarrow> state \<Rightarrow> state \<Rightarrow> bool" for g where
  run_refl: "run g st st"
| run_step: "run g st st1 \<Longrightarrow> heap st1 \<noteq> [] \<Longrightarrow> step g st1 = Inr st2 \<Longrightarrow> run g st st2"

lemma run_trans: "run g st1 st2 \<Longrightarrow> run g st st1 \<Longrightarrow> run g st st2"
  by (induction rule: run.induct) (auto intro: run_step)

lemma run_inv: "run g st st' \<Longrightarrow> nonneg g \<Longrightarrow> inv g s st \<Longrightarrow> inv g s st'"
  by (induction rule: run.induct) (auto intro: step_inv)

lemma dijkstra_loop_run: "dijkstra_loop g st = Inr st' \<Longrightarrow> run g st st' \<and> heap st' = []"
proof (induction g st rule: dijkstra_loop.induct)
  case (1 g st)
  show ?case
  proof (cases "heap st = []")
    case True
    with "1.prems" have "st' = st" by (subst (asm) dijkstra_loop.simps) simp
    with True show ?thesis by (simp add: run_refl)
  next
    case False
    with "1.prems" obtain st1 where s1: "step g st = Inr st1" and l1: "dijkstra_loop g st1 = Inr st'"
      by (subst (asm) dijkstra_loop.simps) (auto split: sum.splits)
    from "1.IH" [OF False s1 l1] have "run g st1 st'" "heap st' = []" by simp_all
    moreover have "run g st st1" using run_step [OF run_refl False s1] .
    ultimately show ?thesis using run_trans by blast
  qed
qed

lemma dijkstra_run:
  assumes "dijkstra g s = Inr (ds, ps)"
  obtains st where "run g (init_state g s) st" "heap st = []"
    "distances st = ds" "previous_nodes st = ps"
proof -
  from assms obtain st where "dijkstra_loop g (init_state g s) = Inr st"
    "distances st = ds" "previous_nodes st = ps"
    by (auto simp: dijkstra_def split: sum.splits)
  with dijkstra_loop_run [of g "init_state g s" st] that show ?thesis by blast
qed

lemma dijkstra_inv:
  assumes "nonneg g" "dijkstra g s = Inr (ds, ps)"
  obtains st where "inv g s st" "heap st = []" "distances st = ds" "previous_nodes st = ps"
proof -
  from dijkstra_run [OF assms(2)] obtain st where st: "run g (init_state g s) st" "heap st = []"
    "distances st = ds" "previous_nodes st = ps" by blast
  from run_inv [OF st(1) assms(1) init_state_inv] st that show ?thesis by blast
qed

subsection \<open>Recorded distances only decrease\<close>

lemma relax_mono:
  assumes "relax u e st = Inr st'" "distances st x = Some d"
  shows "\<exists>d'. distances st' x = Some d' \<and> d' \<le> d"
proof -
  obtain v w where e: "e = (v, w)" by (cases e)
  from assms(1) [unfolded e] show ?thesis
  proof (cases rule: relax_Inr_cases)
    case (keep dc dn)
    with assms(2) show ?thesis by simp
  next
    case (update dc dn)
    show ?thesis
    proof (cases "x = v")
      case True
      with update assms(2) show ?thesis by (simp add: less_imp_le)
    next
      case False
      with update assms(2) show ?thesis by simp
    qed
  qed
qed

lemma relax_all_mono:
  "relax_all u es st = Inr st' \<Longrightarrow> distances st x = Some d \<Longrightarrow>
   \<exists>d'. distances st' x = Some d' \<and> d' \<le> d"
proof (induction es arbitrary: st d)
  case Nil
  then show ?case by simp
next
  case (Cons e es)
  from Cons.prems(1) obtain st1 where r1: "relax u e st = Inr st1"
    and r2: "relax_all u es st1 = Inr st'"
    by (auto split: sum.splits)
  from relax_mono [OF r1 Cons.prems(2)] obtain d1 where d1: "distances st1 x = Some d1" "d1 \<le> d"
    by blast
  from Cons.IH [OF r2 d1(1)] obtain d' where "distances st' x = Some d'" "d' \<le> d1" by blast
  with d1(2) show ?case by auto
qed

lemma step_mono:
  assumes "step g st = Inr st'" "distances st x = Some d"
  shows "\<exists>d'. distances st' x = Some d' \<and> d' \<le> d"
  using assms(1)
proof (cases rule: step_Inr_cases)
  case (stale it h')
  with assms(2) show ?thesis by simp
next
  case (visit it h')
  from relax_all_mono [OF visit(3), of x d] assms(2) show ?thesis by simp
qed

lemma step_visited_mono:
  assumes "step g st = Inr st'"
  shows "visited_nodes st \<subseteq> visited_nodes st'"
  using assms
proof (cases rule: step_Inr_cases)
  case (stale it h')
  then show ?thesis by simp
next
  case (visit it h')
  from relax_all_visited [OF visit(3)] show ?thesis by auto
qed

lemma run_mono:
  "run g st st' \<Longrightarrow> distances st x = Some d \<Longrightarrow> \<exists>d'. distances st' x = Some d' \<and> d' \<le> d"
proof (induction arbitrary: d rule: run.induct)
  case (run_refl st)
  then show ?case by simp
next
  case (run_step st st1 st2)
  from run_step.IH [OF run_step.prems] obtain d1 where d1: "distances st1 x = Some d1" "d1 \<le> d"
    by blast
  from step_mono [OF run_step.hyps(3) d1(1)] obtain d2 where "distances st2 x = Some d2" "d2 \<le> d1"
    by blast
  with d1(2) show ?case by auto
qed

lemma run_visited_mono: "run g st st' \<Longrightarrow> visited_nodes st \<subseteq> visited_nodes st'"
  by (induction rule: run.induct) (auto dest: step_visited_mono)

lemma inv_visited_shortest:
  assumes "inv g s st" "v \<in> visited_nodes st"
  shows "\<exists>d. distances st v = Some (Fin d) \<and> shortest_distance g s v d"
proof -
  from assms obtain d where d: "distances st v = Some (Fin d)" "\<forall>d'. path g s v d' \<longrightarrow> d \<le> d'"
    unfolding inv_def inv_core_def inv_visited_def by blast
  moreover from assms(1) d(1) have "path g s v d"
    unfolding inv_def inv_core_def inv_path_def by blast
  ultimately show ?thesis unfolding shortest_distance_def by blast
qed

lemma shortest_distance_unique:
  "shortest_distance g s v d \<Longrightarrow> shortest_distance g s v d' \<Longrightarrow> d = d'"
  unfolding shortest_distance_def by (meson order_antisym)

lemma relax_all_prefix_core:
  "nonneg g \<Longrightarrow> u \<in> visited_nodes st \<Longrightarrow> set (es1 @ es2) \<subseteq> set (neighbors g u) \<Longrightarrow>
   inv_core g s (pending u (es1 @ es2)) st \<Longrightarrow> relax_all u es1 st = Inr st' \<Longrightarrow>
   inv_core g s (pending u es2) st'"
proof (induction es1 arbitrary: st)
  case Nil
  then show ?case by simp
next
  case (Cons e es1)
  obtain v w where e: "e = (v, w)" by (cases e)
  from Cons.prems(5) obtain st1 where r1: "relax u (v, w) st = Inr st1"
    and r2: "relax_all u es1 st1 = Inr st'"
    by (auto simp: e split: sum.splits)
  have ed: "edge g u v w" using Cons.prems(3) by (simp add: e edge_def)
  have "inv_core g s (pending u ((e # es1) @ es2) - {(u, v, w)}) st1"
    using relax_core [OF Cons.prems(1) Cons.prems(4) Cons.prems(2) ed r1] .
  moreover have "pending u ((e # es1) @ es2) - {(u, v, w)} \<subseteq> pending u (es1 @ es2)"
    by (auto simp: pending_def e)
  ultimately have c1: "inv_core g s (pending u (es1 @ es2)) st1" by (rule inv_core_mono)
  have u1: "u \<in> visited_nodes st1" using relax_visited [OF r1] Cons.prems(2) by simp
  have s1: "set (es1 @ es2) \<subseteq> set (neighbors g u)" using Cons.prems(3) by simp
  from Cons.IH [OF Cons.prems(1) u1 s1 c1 r2] show ?case .
qed

lemma inv_core_visited_shortest:
  assumes "inv_core g s P st" "v \<in> visited_nodes st"
  shows "\<exists>d. distances st v = Some (Fin d) \<and> shortest_distance g s v d"
proof -
  from assms obtain d where d: "distances st v = Some (Fin d)" "\<forall>d'. path g s v d' \<longrightarrow> d \<le> d'"
    unfolding inv_core_def inv_visited_def by blast
  moreover from assms(1) d(1) have "path g s v d"
    unfolding inv_core_def inv_path_def by blast
  ultimately show ?thesis unfolding shortest_distance_def by blast
qed

text \<open>Inside the iteration that visits a node: after any number of relaxations, the nodes
  visited so far, the new one included, have their distances unchanged.\<close>

lemma visit_prefix_frame:
  assumes nn: "nonneg g" and i: "inv g s st"
    and pop: "heappop (heap st) = Inr (it, h')" and nv: "node it \<notin> visited_nodes st"
    and split: "neighbors g (node it) = es1 @ es2"
    and ra: "relax_all (node it) es1
               (st\<lparr>heap := h', visited_nodes := insert (node it) (visited_nodes st)\<rparr>) = Inr st''"
    and v: "v \<in> insert (node it) (visited_nodes st)"
  shows "distances st'' v = distances st v"
proof -
  let ?st1 = "st\<lparr>heap := h', visited_nodes := insert (node it) (visited_nodes st)\<rparr>"
  from i have core: "inv_core g s {} st" by (simp add: inv_def)
  have c1: "inv_core g s (pending (node it) (es1 @ es2)) ?st1"
    using pop_unvisited_core [OF nn core pop nv] by (simp add: split)
  have u1: "node it \<in> visited_nodes ?st1" by simp
  have s1: "set (es1 @ es2) \<subseteq> set (neighbors g (node it))" by (simp add: split)
  have c2: "inv_core g s (pending (node it) es2) st''"
    using relax_all_prefix_core [OF nn u1 s1 c1 ra] .
  have "v \<in> visited_nodes st''" using relax_all_visited [OF ra] v by simp
  from inv_core_visited_shortest [OF c2 this]
  obtain d'' where d'': "distances st'' v = Some (Fin d'')" "shortest_distance g s v d''" by blast
  have "\<exists>d. distances st v = Some (Fin d) \<and> shortest_distance g s v d"
  proof (cases "v = node it")
    case True
    with popped_shortest [OF nn core pop nv] show ?thesis by simp
  next
    case False
    with v have "v \<in> visited_nodes st" by simp
    from inv_core_visited_shortest [OF core this] show ?thesis .
  qed
  then obtain d where d: "distances st v = Some (Fin d)" "shortest_distance g s v d" by blast
  from shortest_distance_unique [OF d(2) d''(2)] d(1) d''(1) show ?thesis by simp
qed

subsection \<open>The walk along the predecessors\<close>

lemma walk_terminates:
  assumes "wf (pred_rel ps)"
  shows "\<exists>r. walk ps (Some v) acc = Some r"
  using assms
proof (induction v arbitrary: acc rule: wf_induct_rule)
  case (less v)
  show ?case
  proof (cases "ps v")
    case None
    then show ?thesis by (subst walk.simps) simp
  next
    case (Some nxt)
    show ?thesis
    proof (cases nxt)
      case None
      with Some show ?thesis by (subst walk.simps, simp, subst walk.simps, simp)
    next
      case (Some u)
      with \<open>ps v = Some nxt\<close> have "(u, v) \<in> pred_rel ps" by (simp add: pred_rel_def)
      from less.IH [OF this, of "acc @ [v]"] Some \<open>ps v = Some nxt\<close>
      show ?thesis by (subst walk.simps) simp
    qed
  qed
qed

lemma walk_from_key:
  assumes "wf (pred_rel ps)"
    and closed: "\<And>u v. ps v = Some (Some u) \<Longrightarrow> u \<in> dom ps"
    and "v \<in> dom ps"
  shows "\<exists>p. walk ps (Some v) acc = Some (Inr p)"
  using assms(1,3)
proof (induction v arbitrary: acc rule: wf_induct_rule)
  case (less v)
  from less.prems obtain nxt where nxt: "ps v = Some nxt" by blast
  show ?case
  proof (cases nxt)
    case None
    with nxt show ?thesis by (subst walk.simps, simp, subst walk.simps, simp)
  next
    case (Some u)
    with nxt have "(u, v) \<in> pred_rel ps" "u \<in> dom ps" by (simp_all add: pred_rel_def closed)
    from less.IH [OF this, of "acc @ [v]"] Some nxt
    show ?thesis by (subst walk.simps) simp
  qed
qed

lemma chain_to_start:
  assumes i: "inv g s st"
  shows "distances st v = Some (Fin d) \<Longrightarrow> (s, v) \<in> (pred_rel (previous_nodes st))\<^sup>*"
proof -
  from i have ps: "pred_sound g s st" and pt: "pred_total s st"
    and w: "wf (pred_rel (previous_nodes st))"
    by (simp_all add: inv_def inv_pred_def)
  from w show "distances st v = Some (Fin d) \<Longrightarrow> (s, v) \<in> (pred_rel (previous_nodes st))\<^sup>*"
  proof (induction v arbitrary: d rule: wf_induct_rule)
    case (less v)
    show ?case
    proof (cases "v = s")
      case True
      then show ?thesis by simp
    next
      case False
      with pt less.prems obtain u where u: "previous_nodes st v = Some (Some u)"
        unfolding pred_total_def by blast
      with ps obtain du where "distances st u = Some (Fin du)"
        unfolding pred_sound_def by blast
      moreover from u have uv: "(u, v) \<in> pred_rel (previous_nodes st)" by (simp add: pred_rel_def)
      ultimately have "(s, u) \<in> (pred_rel (previous_nodes st))\<^sup>*" using less.IH by blast
      then show ?thesis using uv by (rule rtrancl_into_rtrancl)
    qed
  qed
qed

subsection \<open>The result depends on the adjacency mapping only\<close>

lemma map_of_map_const:
  "map_of (map (\<lambda>(n, es). (n, c)) g) = (\<lambda>n. map_option (\<lambda>es. c) (map_of g n))"
  by (induction g) (auto simp: fun_eq_iff)

lemma dijkstra_loop_cong:
  "map_of g = map_of g' \<Longrightarrow> dijkstra_loop g st = dijkstra_loop g' st"
proof (induction g st rule: dijkstra_loop.induct)
  case (1 g st)
  have n: "neighbors g = neighbors g'" using "1.prems" by (intro ext) (simp add: neighbors_def)
  have s: "step g' st = step g st" unfolding step_def n ..
  have L: "dijkstra_loop g st =
      (if heap st = [] then Inr st
       else case step g st of Inl err \<Rightarrow> Inl err | Inr st' \<Rightarrow> dijkstra_loop g st')"
    by (rule dijkstra_loop.simps)
  have R: "dijkstra_loop g' st =
      (if heap st = [] then Inr st
       else case step g' st of Inl err \<Rightarrow> Inl err | Inr st' \<Rightarrow> dijkstra_loop g' st')"
    by (rule dijkstra_loop.simps)
  show ?case
  proof (cases "heap st = []")
    case True
    then show ?thesis by (simp add: L R)
  next
    case False
    show ?thesis
    proof (cases "step g st")
      case (Inl e)
      with False show ?thesis by (simp add: L R s)
    next
      case (Inr st1)
      from "1.IH" [OF False Inr "1.prems"] False Inr show ?thesis by (simp add: L R s)
    qed
  qed
qed

text \<open>Two graphs with the same adjacency mapping (each key with the same list of edges, in
  the same order), whatever the order in which the keys were inserted, give the same tables
  (or the same exception) for the same start node.\<close>

lemma dijkstra_cong: "map_of g = map_of g' \<Longrightarrow> dijkstra g start = dijkstra g' start"
proof -
  assume m: "map_of g = map_of g'"
  then have "init_state g start = init_state g' start"
    by (simp add: init_state_def map_of_map_const)
  with dijkstra_loop_cong [OF m] show ?thesis by (simp add: dijkstra_def)
qed

subsection \<open>The returned tables\<close>

text \<open>When the loop has ended, every node with a finite distance is visited.\<close>

lemma final_finite_visited:
  assumes "inv g s st" "heap st = []" "distances st v = Some (Fin d)"
  shows "v \<in> visited_nodes st"
proof (rule ccontr)
  assume "v \<notin> visited_nodes st"
  with assms(1,3) have "\<lparr>distance = Fin d, node = v\<rparr> \<in> set (heap st)"
    unfolding inv_def inv_core_def inv_live_def by blast
  with assms(2) show False by simp
qed

lemma final_path_visited:
  assumes nn: "nonneg g" and i: "inv g s st" and h: "heap st = []" and p: "path g s v d"
  shows "v \<in> visited_nodes st"
proof -
  from i have core: "inv_core g s {} st" by (simp add: inv_def)
  from frontier [OF p nn core] show ?thesis
  proof
    assume "\<exists>y dy. y \<notin> visited_nodes st \<and> distances st y = Some (Fin dy) \<and> dy \<le> d"
    then obtain y dy where "y \<notin> visited_nodes st" "distances st y = Some (Fin dy)" by blast
    with final_finite_visited [OF i h] show ?thesis by blast
  qed
qed

text \<open>The distances returned for non-negative weights are the shortest-path distances, and
  a node has a finite distance exactly when a path leads to it.\<close>

lemma dijkstra_correct:
  assumes nn: "nonneg g" and ret: "dijkstra g s = Inr (ds, ps)"
  shows "(ds v = Some (Fin d)) = shortest_distance g s v d"
proof -
  from dijkstra_inv [OF nn ret] obtain st where st: "inv g s st" "heap st = []" "distances st = ds"
    by blast
  show ?thesis
  proof
    assume "ds v = Some (Fin d)"
    with st have d: "distances st v = Some (Fin d)" by simp
    from inv_visited_shortest [OF st(1) final_finite_visited [OF st(1,2) d]] d
    show "shortest_distance g s v d" by simp
  next
    assume sd: "shortest_distance g s v d"
    then have "path g s v d" by (simp add: shortest_distance_def)
    from inv_visited_shortest [OF st(1) final_path_visited [OF nn st(1,2) this]]
    obtain d' where d': "distances st v = Some (Fin d')" "shortest_distance g s v d'" by blast
    from shortest_distance_unique [OF sd d'(2)] d'(1) st(3) show "ds v = Some (Fin d)" by simp
  qed
qed

lemma dijkstra_infinite_iff_unreachable:
  assumes nn: "nonneg g" and ret: "dijkstra g s = Inr (ds, ps)"
  shows "((case ds v of None \<Rightarrow> Infty | Some d \<Rightarrow> d) = Infty) = (\<nexists>d. path g s v d)"
proof
  assume inf: "(case ds v of None \<Rightarrow> Infty | Some d \<Rightarrow> d) = Infty"
  show "\<nexists>d. path g s v d"
  proof
    assume "\<exists>d. path g s v d"
    then obtain d where p: "path g s v d" by blast
    from dijkstra_inv [OF nn ret] obtain st where st: "inv g s st" "heap st = []"
      "distances st = ds" by blast
    from inv_visited_shortest [OF st(1) final_path_visited [OF nn st(1,2) p]] st(3) inf
    show False by auto
  qed
next
  assume np: "\<nexists>d. path g s v d"
  show "(case ds v of None \<Rightarrow> Infty | Some d \<Rightarrow> d) = Infty"
  proof (cases "ds v")
    case None
    then show ?thesis by simp
  next
    case (Some x)
    show ?thesis
    proof (cases x)
      case (Fin d)
      with Some dijkstra_correct [OF nn ret, of v d] np show ?thesis
        by (simp add: shortest_distance_def)
    next
      case Infty
      with Some show ?thesis by simp
    qed
  qed
qed

lemma dijkstra_start_entry:
  assumes nn: "nonneg g" and ret: "dijkstra g s = Inr (ds, ps)"
  shows "ds s = Some (Fin 0) \<and> ps s = (if s \<in> fst ` set g then Some None else None)"
proof -
  from dijkstra_inv [OF nn ret] obtain st where st: "inv g s st" "distances st = ds"
    "previous_nodes st = ps" by blast
  from st have 1: "ds s = Some (Fin 0)" by (simp add: inv_def inv_core_def inv_start_def)
  from st have nopred: "\<And>u. ps s \<noteq> Some (Some u)" and dm: "dom ps = fst ` set g"
    unfolding inv_def inv_pred_def pred_sound_def by blast+
  have "ps s = (if s \<in> fst ` set g then Some None else None)"
  proof (cases "ps s")
    case None
    then have "s \<notin> dom ps" by (simp add: domIff)
    with dm None show ?thesis by simp
  next
    case (Some x)
    with nopred have "x = None" by (cases x) auto
    moreover from Some have "s \<in> dom ps" by (simp add: domIff)
    ultimately show ?thesis using Some dm by simp
  qed
  with 1 show ?thesis by simp
qed

lemma dijkstra_dom:
  assumes "nonneg g" "dijkstra g s = Inr (ds, ps)"
  shows "dom ds = insert s (fst ` set g) \<and> dom ps = fst ` set g"
proof -
  from dijkstra_inv [OF assms] obtain st where "inv g s st" "distances st = ds"
    "previous_nodes st = ps" by blast
  then show ?thesis by (auto simp: inv_def inv_pred_def)
qed

subsection \<open>No exception when every neighbour target has a distance entry\<close>

definition closed_graph :: "graph \<Rightarrow> node \<Rightarrow> bool" where
  "closed_graph g s =
     list_all (\<lambda>(u, es). list_all (\<lambda>(v, w). v = s \<or> v \<in> fst ` set g) es) g"

lemma closed_graph_edge:
  assumes "closed_graph g s" "edge g u v w"
  shows "v \<in> insert s (fst ` set g)"
proof -
  from assms(2) obtain es where "map_of g u = Some es" "(v, w) \<in> set es"
    unfolding edge_iff by blast
  then have "(u, es) \<in> set g" by (simp add: map_of_SomeD)
  with assms(1) \<open>(v, w) \<in> set es\<close> show ?thesis
    unfolding closed_graph_def list_all_iff by fastforce
qed

definition inv_keys :: "graph \<Rightarrow> node \<Rightarrow> state \<Rightarrow> bool" where
  "inv_keys g s st =
     (dom (distances st) = insert s (fst ` set g) \<and> node ` set (heap st) \<subseteq> insert s (fst ` set g))"

lemma init_state_keys: "inv_keys g s (init_state g s)"
  by (simp add: inv_keys_def init_state_def dom_map_of_const)

lemma relax_keys:
  assumes "inv_keys g s st" "v \<in> insert s (fst ` set g)" "u \<in> insert s (fst ` set g)"
  shows "\<exists>st'. relax u (v, w) st = Inr st' \<and> inv_keys g s st'"
proof -
  from assms obtain dc dn where d: "distances st u = Some dc" "distances st v = Some dn"
    unfolding inv_keys_def by (metis domD)
  show ?thesis
  proof (cases "dist_add dc w < dn")
    case True
    with d have "relax u (v, w) st =
        Inr (st\<lparr>distances := (distances st)(v \<mapsto> dist_add dc w),
                previous_nodes := (previous_nodes st)(v \<mapsto> Some u),
                heap := heappush (heap st) \<lparr>distance = dist_add dc w, node = v\<rparr>\<rparr>)"
      by (simp add: relax_def Let_def)
    moreover have "inv_keys g s (st\<lparr>distances := (distances st)(v \<mapsto> dist_add dc w),
                previous_nodes := (previous_nodes st)(v \<mapsto> Some u),
                heap := heappush (heap st) \<lparr>distance = dist_add dc w, node = v\<rparr>\<rparr>)"
      using assms(1,2) unfolding inv_keys_def by (auto simp: heappush_set)
    ultimately show ?thesis by blast
  next
    case False
    with d have "relax u (v, w) st = Inr st" by (simp add: relax_def Let_def)
    with assms(1) show ?thesis by blast
  qed
qed

lemma relax_all_keys:
  "inv_keys g s st \<Longrightarrow> u \<in> insert s (fst ` set g) \<Longrightarrow>
   \<forall>(v, w) \<in> set es. v \<in> insert s (fst ` set g) \<Longrightarrow>
   \<exists>st'. relax_all u es st = Inr st' \<and> inv_keys g s st'"
proof (induction es arbitrary: st)
  case Nil
  then show ?case by simp
next
  case (Cons e es)
  obtain v w where e: "e = (v, w)" by (cases e)
  with Cons.prems(3) have "v \<in> insert s (fst ` set g)" by simp
  from relax_keys [OF Cons.prems(1) this Cons.prems(2)]
  obtain st1 where st1: "relax u (v, w) st = Inr st1" "inv_keys g s st1" by blast
  from Cons.prems(3) have "\<forall>(v, w) \<in> set es. v \<in> insert s (fst ` set g)" by simp
  from Cons.IH [OF st1(2) Cons.prems(2) this] st1(1) e show ?case by simp
qed

lemma step_keys:
  assumes cl: "closed_graph g s" and k: "inv_keys g s st" and ne: "heap st \<noteq> []"
  shows "\<exists>st'. step g st = Inr st' \<and> inv_keys g s st'"
proof -
  from heappop_nonempty [OF ne] obtain it h' where pop: "heappop (heap st) = Inr (it, h')"
    by blast
  from heappop_set [OF pop] have sets: "set (heap st) = insert it (set h')" .
  with k have u: "node it \<in> insert s (fst ` set g)" and h': "node ` set h' \<subseteq> insert s (fst ` set g)"
    unfolding inv_keys_def by auto
  show ?thesis
  proof (cases "node it \<in> visited_nodes st")
    case True
    with pop have "step g st = Inr (st\<lparr>heap := h'\<rparr>)" by (simp add: step_def)
    moreover have "inv_keys g s (st\<lparr>heap := h'\<rparr>)" using k h' by (simp add: inv_keys_def)
    ultimately show ?thesis by blast
  next
    case False
    let ?st1 = "st\<lparr>heap := h', visited_nodes := insert (node it) (visited_nodes st)\<rparr>"
    have k1: "inv_keys g s ?st1" using k h' by (simp add: inv_keys_def)
    have "\<forall>(v, w) \<in> set (neighbors g (node it)). v \<in> insert s (fst ` set g)"
      using closed_graph_edge [OF cl] by (auto simp: edge_def)
    from relax_all_keys [OF k1 u this] False pop show ?thesis by (simp add: step_def Let_def)
  qed
qed

lemma dijkstra_loop_keys:
  "closed_graph g s \<Longrightarrow> inv_keys g s st \<Longrightarrow> \<exists>st'. dijkstra_loop g st = Inr st'"
proof (induction g st rule: dijkstra_loop.induct)
  case (1 g st)
  have L: "dijkstra_loop g st =
      (if heap st = [] then Inr st
       else case step g st of Inl err \<Rightarrow> Inl err | Inr st' \<Rightarrow> dijkstra_loop g st')"
    by (rule dijkstra_loop.simps)
  show ?case
  proof (cases "heap st = []")
    case True
    then show ?thesis by (simp add: L)
  next
    case False
    from step_keys [OF "1.prems" False] obtain st1 where st1: "step g st = Inr st1"
      "inv_keys g s st1" by blast
    from "1.IH" [OF False st1(1) "1.prems"(1) st1(2)] False st1(1) show ?thesis by (simp add: L)
  qed
qed

text \<open>On a graph whose neighbour targets are all adjacency keys (or the start node),
  \<^verbatim>\<open>dijkstra\<close> returns its tables: no \<^verbatim>\<open>KeyError\<close>, no \<^verbatim>\<open>IndexError\<close>.\<close>

lemma dijkstra_returns:
  assumes "closed_graph g s"
  shows "\<exists>ds ps. dijkstra g s = Inr (ds, ps)"
  using dijkstra_loop_keys [OF assms init_state_keys] by (auto simp: dijkstra_def)

subsection \<open>The reconstructed path\<close>

text \<open>\<open>route g p d\<close>: the consecutive nodes of the list \<open>p\<close> are joined by edges of the
  graph, and \<open>d\<close> is the sum of the weights of these edges.\<close>

inductive route :: "graph \<Rightarrow> node list \<Rightarrow> int \<Rightarrow> bool" for g where
  route_single: "route g [v] 0"
| route_snoc: "route g (p @ [u]) d \<Longrightarrow> edge g u v w \<Longrightarrow> route g (p @ [u, v]) (d + w)"

lemma walk_chain:
  assumes i: "inv g s st" and key: "s \<in> fst ` set g"
  shows "distances st v = Some (Fin d) \<Longrightarrow>
         \<exists>q. walk (previous_nodes st) (Some v) acc = Some (Inr (acc @ q))
              \<and> q \<noteq> [] \<and> hd q = v \<and> last q = s \<and> route g (rev q) d"
proof -
  from i have ps: "pred_sound g s st" and pt: "pred_total s st"
    and w: "wf (pred_rel (previous_nodes st))"
    and dm: "dom (previous_nodes st) = fst ` set g"
    and st0: "distances st s = Some (Fin 0)"
    by (simp_all add: inv_def inv_pred_def inv_core_def inv_start_def)
  from w show "distances st v = Some (Fin d) \<Longrightarrow>
         \<exists>q. walk (previous_nodes st) (Some v) acc = Some (Inr (acc @ q))
              \<and> q \<noteq> [] \<and> hd q = v \<and> last q = s \<and> route g (rev q) d"
  proof (induction v arbitrary: acc d rule: wf_induct_rule)
    case (less v)
    show ?case
    proof (cases "v = s")
      case True
      from key dm obtain x where x: "previous_nodes st s = Some x" by (metis domD)
      with ps have "x = None" unfolding pred_sound_def by (cases x) auto
      with x have "walk (previous_nodes st) (Some s) acc = Some (Inr (acc @ [s]))"
        by (subst walk.simps, simp, subst walk.simps, simp)
      moreover from True less.prems st0 have "d = 0" by simp
      ultimately show ?thesis using True route_single [of g s] by simp
    next
      case False
      with pt less.prems obtain u where u: "previous_nodes st v = Some (Some u)"
        unfolding pred_total_def by blast
      with ps obtain w du where e: "edge g u v w" and du: "distances st u = Some (Fin du)"
        and dv: "distances st v = Some (Fin (du + w))"
        unfolding pred_sound_def by blast
      from dv less.prems have d: "d = du + w" by simp
      from u have "(u, v) \<in> pred_rel (previous_nodes st)" by (simp add: pred_rel_def)
      from less.IH [OF this du, of "acc @ [v]"] obtain q where
        q: "walk (previous_nodes st) (Some u) (acc @ [v]) = Some (Inr ((acc @ [v]) @ q))"
        "q \<noteq> []" "hd q = u" "last q = s" "route g (rev q) du" by blast
      have "walk (previous_nodes st) (Some v) acc = walk (previous_nodes st) (Some u) (acc @ [v])"
        using u by (subst walk.simps) simp
      with q(1) have 1: "walk (previous_nodes st) (Some v) acc = Some (Inr (acc @ (v # q)))"
        by simp
      from q(2,3) have "rev q = butlast (rev q) @ [u]"
        by (metis append_butlast_last_id last_rev rev_is_Nil_conv)
      with q(5) have "route g (butlast (rev q) @ [u]) du" by simp
      from route_snoc [OF this e] \<open>rev q = butlast (rev q) @ [u]\<close>
      have "route g (rev q @ [v]) (du + w)" by (metis append.assoc append_Cons append_Nil)
      with 1 q(2,4) d show ?thesis by (intro exI [of _ "v # q"]) simp
    qed
  qed
qed

text \<open>For non-negative weights and a start node that is an adjacency key: whenever
  \<^verbatim>\<open>dijkstra\<close> returns a finite distance for \<^verbatim>\<open>end\<close>, \<^verbatim>\<open>shortest_path\<close> returns a list from
  \<^verbatim>\<open>start\<close> to \<^verbatim>\<open>end\<close> along edges of the graph whose weights sum to that distance, which
  is the shortest-path distance.\<close>

lemma shortest_path_correct:
  assumes nn: "nonneg g" and key: "s \<in> fst ` set g"
    and ret: "dijkstra g s = Inr (ds, ps)" and fin: "ds e = Some (Fin d)"
  shows "\<exists>p. shortest_path g s e = Some (Inr p) \<and> hd p = s \<and> last p = e
             \<and> route g p d \<and> shortest_distance g s e d"
proof -
  from dijkstra_inv [OF nn ret] obtain st where st: "inv g s st" "distances st = ds"
    "previous_nodes st = ps" by blast
  from walk_chain [OF st(1) key, of e d "[]"] fin st(2,3) obtain q where
    q: "walk ps (Some e) [] = Some (Inr q)" "q \<noteq> []" "hd q = e" "last q = s" "route g (rev q) d"
    by auto
  from ret fin q(1) have "shortest_path g s e = Some (Inr (rev q))"
    by (simp add: shortest_path_def)
  moreover from q(2,3,4) have "hd (rev q) = s" "last (rev q) = e"
    by (simp_all add: hd_rev last_rev)
  moreover from dijkstra_correct [OF nn ret, of e d] fin have "shortest_distance g s e d" by simp
  ultimately show ?thesis using q(5) by blast
qed

lemma shortest_path_start_to_start:
  assumes nn: "nonneg g" and key: "s \<in> fst ` set g" and ret: "dijkstra g s = Inr (ds, ps)"
  shows "shortest_path g s s = Some (Inr [s])"
proof -
  from dijkstra_start_entry [OF nn ret] key have "ds s = Some (Fin 0)" "ps s = Some None"
    by simp_all
  moreover from this have "walk ps (Some s) [] = Some (Inr [s])"
    by (subst walk.simps, simp, subst walk.simps, simp)
  ultimately show ?thesis using ret by (simp add: shortest_path_def)
qed

section \<open>A start node outside the adjacency map\<close>

lemma heappop_singleton: "heappop [x] = Inr (x, [])"
  by (simp add: heappop_def)

lemma neighbors_not_key: "n \<notin> fst ` set g \<Longrightarrow> neighbors g n = []"
  by (simp add: neighbors_def map_of_eq_None_iff [THEN iffD2])

lemma previous_init_not_key:
  "n \<notin> fst ` set g \<Longrightarrow> map_of (map (\<lambda>(n, es). (n, None)) g) n = None"
  by (simp add: map_of_eq_None_iff image_image case_prod_unfold)

text \<open>
  When \<^verbatim>\<open>start\<close> is not a key of the adjacency map, the loop pops \<^verbatim>\<open>start\<close>, finds no
  neighbours and stops: the tables are the initial ones.
\<close>

lemma dijkstra_start_not_key:
  assumes "start \<notin> fst ` set g"
  shows "dijkstra g start =
           Inr ((map_of (map (\<lambda>(n, es). (n, Infty)) g))(start \<mapsto> Fin 0),
                map_of (map (\<lambda>(n, es). (n, None)) g))"
proof -
  let ?st1 = "(init_state g start)\<lparr>heap := [], visited_nodes := {start}\<rparr>"
  have "step g (init_state g start) = Inr ?st1"
    using assms by (simp add: step_def init_state_def heappop_singleton neighbors_not_key)
  moreover have "heap (init_state g start) \<noteq> []" by (simp add: init_state_def)
  ultimately have "dijkstra_loop g (init_state g start) = dijkstra_loop g ?st1"
    by (subst dijkstra_loop.simps) simp
  also have "\<dots> = Inr ?st1"
    by (subst dijkstra_loop.simps) simp
  finally show ?thesis
    by (simp add: dijkstra_def init_state_def)
qed

section \<open>What holds whenever \<^verbatim>\<open>dijkstra\<close> returns\<close>

text \<open>
  Whenever \<^verbatim>\<open>dijkstra(start)\<close> returns and the distance it computed for \<^verbatim>\<open>end\<close> is infinite
  (the entry is infinity, or \<^verbatim>\<open>end\<close> has no entry and \<^verbatim>\<open>get\<close> supplies infinity),
  \<^verbatim>\<open>shortest_path(start, end)\<close> returns the empty list.
\<close>

lemma shortest_path_infinite_distance:
  "dijkstra g start = Inr (dists, prevs) \<Longrightarrow>
   (case dists end_node of None \<Rightarrow> Infty | Some d \<Rightarrow> d) = Infty \<Longrightarrow>
   shortest_path g start end_node = Some (Inr [])"
  by (simp add: shortest_path_def)

text \<open>
  On a graph with non-negative weights whose neighbour targets are all adjacency keys (or
  the start node), \<^verbatim>\<open>shortest_path(start, end)\<close> returns the empty list for every \<^verbatim>\<open>end\<close>
  that no path from \<^verbatim>\<open>start\<close> reaches.
\<close>

lemma shortest_path_unreachable:
  assumes "nonneg g" "closed_graph g s" "\<nexists>d. path g s v d"
  shows "shortest_path g s v = Some (Inr [])"
proof -
  from dijkstra_returns [OF assms(2)] obtain ds ps where r: "dijkstra g s = Inr (ds, ps)" by blast
  from dijkstra_infinite_iff_unreachable [OF assms(1) r, of v] assms(3)
  have "(case ds v of None \<Rightarrow> Infty | Some d \<Rightarrow> d) = Infty" by simp
  with r show ?thesis by (simp add: shortest_path_def)
qed

text \<open>
  For non-negative weights: a start node outside the adjacency map is no exception
  (\<^verbatim>\<open>dijkstra(start)\<close> returns its tables), and whenever \<^verbatim>\<open>dijkstra(start)\<close> returns,
  \<^verbatim>\<open>distances[start] == 0\<close>, and \<^verbatim>\<open>previous_nodes[start]\<close> is \<^verbatim>\<open>None\<close> when \<^verbatim>\<open>start\<close> is a key
  of the adjacency map.
\<close>

lemma dijkstra_start_tables:
  "nonneg g \<Longrightarrow>
   (start \<notin> fst ` set g \<longrightarrow> (\<exists>ds ps. dijkstra g start = Inr (ds, ps)))
   \<and> (\<forall>ds ps. dijkstra g start = Inr (ds, ps) \<longrightarrow>
         ds start = Some (Fin 0) \<and> (start \<in> fst ` set g \<longrightarrow> ps start = Some None))"
proof (intro conjI allI impI)
  assume "start \<notin> fst ` set g"
  from dijkstra_start_not_key [OF this] show "\<exists>ds ps. dijkstra g start = Inr (ds, ps)" by blast
next
  fix ds ps assume "nonneg g" "dijkstra g start = Inr (ds, ps)"
  from dijkstra_start_entry [OF this] show "ds start = Some (Fin 0)" by simp
next
  fix ds ps assume "nonneg g" "dijkstra g start = Inr (ds, ps)" "start \<in> fst ` set g"
  with dijkstra_start_entry [of g start ds ps] show "ps start = Some None" by simp
qed

text \<open>
  For non-negative weights, whenever \<^verbatim>\<open>dijkstra(s)\<close> returns: the relation "\<open>u\<close> is the
  predecessor of \<open>v\<close>" is well-founded, so the backward walk of \<^verbatim>\<open>shortest_path\<close> ends from
  every node (with a list or with \<^verbatim>\<open>KeyError\<close>); from a key of the adjacency map it ends at
  \<^verbatim>\<open>None\<close>; from a node with a finite distance the chain of predecessors leads back to \<open>s\<close>;
  and \<open>s\<close> has no predecessor.
\<close>

lemma predecessors_acyclic:
  assumes nn: "nonneg g" and ret: "dijkstra g s = Inr (ds, ps)"
  shows "wf (pred_rel ps)
       \<and> (\<forall>v acc. \<exists>r. walk ps (Some v) acc = Some r)
       \<and> (\<forall>v. v \<in> fst ` set g \<longrightarrow> (\<exists>p. walk ps (Some v) [] = Some (Inr p)))
       \<and> (\<forall>v d. ds v = Some (Fin d) \<longrightarrow> (s, v) \<in> (pred_rel ps)\<^sup>*)
       \<and> (\<forall>u. ps s \<noteq> Some (Some u))"
proof -
  from dijkstra_inv [OF nn ret] obtain st where st: "inv g s st" "distances st = ds"
    "previous_nodes st = ps" by blast
  from st have ps: "pred_sound g s st" and w: "wf (pred_rel ps)" and dm: "dom ps = fst ` set g"
    by (auto simp: inv_def inv_pred_def)
  have closed: "u \<in> dom ps" if "ps v = Some (Some u)" for u v
  proof -
    from ps that st(3) obtain w where "edge g u v w" unfolding pred_sound_def by blast
    from edge_key [OF this] dm show ?thesis by simp
  qed
  have 1: "\<exists>r. walk ps (Some v) acc = Some r" for v acc
    using walk_terminates [OF w] .
  have 2: "\<exists>p. walk ps (Some v) [] = Some (Inr p)" if "v \<in> fst ` set g" for v
  proof -
    from that dm have "v \<in> dom ps" by simp
    from walk_from_key [OF w closed this] show ?thesis .
  qed
  have 3: "(s, v) \<in> (pred_rel ps)\<^sup>*" if "ds v = Some (Fin d)" for v d
    using chain_to_start [OF st(1), of v d] that st(2,3) by simp
  have 4: "ps s \<noteq> Some (Some u)" for u
    using ps st(3) unfolding pred_sound_def by blast
  from w 1 2 3 4 show ?thesis by blast
qed

section \<open>Two calls on one \<^verbatim>\<open>Graph\<close> object\<close>

text \<open>
  To compare two calls of \<^verbatim>\<open>dijkstra\<close> on one \<^verbatim>\<open>Graph\<close> object, the objects of the program
  are put in a store: every dict, list and set is an object at an address, and a variable
  holds an address. \<open>graph_at\<close> holds the \<^verbatim>\<open>adjacency\<close> dict of the \<^verbatim>\<open>Graph\<close> object at an
  address, \<open>dist_at\<close>, \<open>prev_at\<close>, \<open>heap_at\<close> and \<open>set_at\<close> the dicts of distances, the dicts of
  predecessors, the heap lists and the sets. Creating an object takes the next free address,
  \<open>next_addr\<close>. A call is a function from the store before it to its result and the store
  after it, so that a call can leave objects behind, change objects that were there before
  it, and read what an earlier call left.
\<close>

record store =
  next_addr :: nat
  graph_at :: "nat \<Rightarrow> graph"
  dist_at :: "nat \<Rightarrow> (node \<rightharpoonup> dist)"
  prev_at :: "nat \<Rightarrow> (node \<rightharpoonup> node option)"
  heap_at :: "nat \<Rightarrow> HeapItem list"
  set_at :: "nat \<Rightarrow> node set"

text \<open>The local variables of one call of \<^verbatim>\<open>dijkstra\<close>: the addresses of its four objects.\<close>

record locals =
  distances_ref :: nat
  previous_nodes_ref :: nat
  heap_ref :: nat
  visited_nodes_ref :: nat

text \<open>Object creation: the dict comprehensions of lines 25 and 26, the list of line 28 and
  \<^verbatim>\<open>set()\<close> of line 29.\<close>

definition new_dist :: "(node \<rightharpoonup> dist) \<Rightarrow> store \<Rightarrow> nat \<times> store" where
  "new_dist d \<sigma> =
     (next_addr \<sigma>, \<sigma>\<lparr>next_addr := Suc (next_addr \<sigma>), dist_at := (dist_at \<sigma>)(next_addr \<sigma> := d)\<rparr>)"

definition new_prev :: "(node \<rightharpoonup> node option) \<Rightarrow> store \<Rightarrow> nat \<times> store" where
  "new_prev p \<sigma> =
     (next_addr \<sigma>, \<sigma>\<lparr>next_addr := Suc (next_addr \<sigma>), prev_at := (prev_at \<sigma>)(next_addr \<sigma> := p)\<rparr>)"

definition new_heap :: "HeapItem list \<Rightarrow> store \<Rightarrow> nat \<times> store" where
  "new_heap h \<sigma> =
     (next_addr \<sigma>, \<sigma>\<lparr>next_addr := Suc (next_addr \<sigma>), heap_at := (heap_at \<sigma>)(next_addr \<sigma> := h)\<rparr>)"

definition new_set :: "node set \<Rightarrow> store \<Rightarrow> nat \<times> store" where
  "new_set v \<sigma> =
     (next_addr \<sigma>, \<sigma>\<lparr>next_addr := Suc (next_addr \<sigma>), set_at := (set_at \<sigma>)(next_addr \<sigma> := v)\<rparr>)"

text \<open>Lines 39 to 43 on the objects of the call: \<^verbatim>\<open>distances[neighbor] = new_distance\<close>,
  \<^verbatim>\<open>previous_nodes[neighbor] = current_node\<close> and \<^verbatim>\<open>heapq.heappush(heap, ...)\<close> update the
  objects in place. An exception leaves the store as it is at that moment.\<close>

definition relax_on :: "locals \<Rightarrow> node \<Rightarrow> node \<times> int \<Rightarrow> store \<Rightarrow> error option \<times> store" where
  "relax_on l current_node e \<sigma> =
     (case e of (neighbor, weight) \<Rightarrow>
        (case dist_at \<sigma> (distances_ref l) current_node of
           None \<Rightarrow> (Some (KeyError current_node), \<sigma>)
         | Some dc \<Rightarrow>
             (let new_distance = dist_add dc weight
              in case dist_at \<sigma> (distances_ref l) neighbor of
                   None \<Rightarrow> (Some (KeyError neighbor), \<sigma>)
                 | Some dn \<Rightarrow>
                     if new_distance < dn then
                       (None,
                        \<sigma>\<lparr>dist_at := (dist_at \<sigma>)(distances_ref l :=
                                       (dist_at \<sigma> (distances_ref l))(neighbor \<mapsto> new_distance)),
                          prev_at := (prev_at \<sigma>)(previous_nodes_ref l :=
                                       (prev_at \<sigma> (previous_nodes_ref l))(neighbor \<mapsto> Some current_node)),
                          heap_at := (heap_at \<sigma>)(heap_ref l :=
                                       heappush (heap_at \<sigma> (heap_ref l))
                                         \<lparr>distance = new_distance, node = neighbor\<rparr>)\<rparr>)
                     else (None, \<sigma>))))"

text \<open>The \<^verbatim>\<open>for\<close> loop of line 38.\<close>

fun relax_all_on :: "locals \<Rightarrow> node \<Rightarrow> (node \<times> int) list \<Rightarrow> store \<Rightarrow> error option \<times> store" where
  "relax_all_on l current_node [] \<sigma> = (None, \<sigma>)"
| "relax_all_on l current_node (e # es) \<sigma> =
     (case relax_on l current_node e \<sigma> of
        (Some err, \<sigma>') \<Rightarrow> (Some err, \<sigma>')
      | (None, \<sigma>') \<Rightarrow> relax_all_on l current_node es \<sigma>')"

text \<open>One iteration of the \<^verbatim>\<open>while heap:\<close> loop, lines 32 to 43: \<^verbatim>\<open>heapq.heappop(heap)\<close> and
  \<^verbatim>\<open>visited_nodes.add(current_node)\<close> update the heap and the set in place, and
  \<^verbatim>\<open>self.adjacency.get(current_node, [])\<close> reads the adjacency dict of \<^verbatim>\<open>self\<close> in the store
  of that moment.\<close>

definition step_on :: "nat \<Rightarrow> locals \<Rightarrow> store \<Rightarrow> error option \<times> store" where
  "step_on self l \<sigma> =
     (case heappop (heap_at \<sigma> (heap_ref l)) of
        Inl err \<Rightarrow> (Some err, \<sigma>)
      | Inr (current_item, heap') \<Rightarrow>
          (let \<sigma>1 = \<sigma>\<lparr>heap_at := (heap_at \<sigma>)(heap_ref l := heap')\<rparr>;
               current_node = node current_item
           in if current_node \<in> set_at \<sigma>1 (visited_nodes_ref l) then (None, \<sigma>1)
              else (let \<sigma>2 = \<sigma>1\<lparr>set_at := (set_at \<sigma>1)(visited_nodes_ref l :=
                                   insert current_node (set_at \<sigma>1 (visited_nodes_ref l)))\<rparr>
                    in relax_all_on l current_node (neighbors (graph_at \<sigma>2 self) current_node) \<sigma>2)))"

text \<open>The state of one call, read from the store, and written back to it.\<close>

definition get :: "locals \<Rightarrow> store \<Rightarrow> state" where
  "get l \<sigma> =
     \<lparr>distances = dist_at \<sigma> (distances_ref l),
      previous_nodes = prev_at \<sigma> (previous_nodes_ref l),
      heap = heap_at \<sigma> (heap_ref l),
      visited_nodes = set_at \<sigma> (visited_nodes_ref l)\<rparr>"

definition put :: "locals \<Rightarrow> state \<Rightarrow> store \<Rightarrow> store" where
  "put l st \<sigma> =
     \<sigma>\<lparr>dist_at := (dist_at \<sigma>)(distances_ref l := distances st),
       prev_at := (prev_at \<sigma>)(previous_nodes_ref l := previous_nodes st),
       heap_at := (heap_at \<sigma>)(heap_ref l := heap st),
       set_at := (set_at \<sigma>)(visited_nodes_ref l := visited_nodes st)\<rparr>"

lemma get_put [simp]: "get l (put l st \<sigma>) = st"
  by (simp add: get_def put_def)

lemma put_put [simp]: "put l st' (put l st \<sigma>) = put l st' \<sigma>"
  by (simp add: put_def)

lemma put_get [simp]: "put l (get l \<sigma>) \<sigma> = \<sigma>"
  by (simp add: get_def put_def)

lemma put_frame [simp]:
  "graph_at (put l st \<sigma>) = graph_at \<sigma>" "next_addr (put l st \<sigma>) = next_addr \<sigma>"
  by (simp_all add: put_def)

text \<open>Each piece of the call on the store does to the state of the call what the
  corresponding function on states does, and leaves the rest of the store alone.\<close>

lemma relax_on_sim:
  "relax_on l u e \<sigma> =
     (case relax u e (get l \<sigma>) of
        Inl err \<Rightarrow> (Some err, \<sigma>)
      | Inr st' \<Rightarrow> (None, put l st' \<sigma>))"
proof -
  obtain v w where e: "e = (v, w)" by (cases e)
  have n: "(None, \<sigma>) = (None, put l (get l \<sigma>) \<sigma>)" by simp
  show ?thesis
    unfolding e relax_on_def relax_def
    by (auto simp: Let_def get_def put_def split: option.splits)
qed

definition outcome :: "error + state \<Rightarrow> error option" where
  "outcome r = (case r of Inl err \<Rightarrow> Some err | Inr st \<Rightarrow> None)"

lemma relax_all_on_sim:
  "\<exists>st''. relax_all_on l u es \<sigma> = (outcome (relax_all u es (get l \<sigma>)), put l st'' \<sigma>)
          \<and> (\<forall>st'. relax_all u es (get l \<sigma>) = Inr st' \<longrightarrow> st'' = st')"
proof (induction es arbitrary: \<sigma>)
  case Nil
  show ?case by (intro exI [of _ "get l \<sigma>"]) (simp add: outcome_def)
next
  case (Cons e es)
  show ?case
  proof (cases "relax u e (get l \<sigma>)")
    case (Inl err)
    then show ?thesis
      by (intro exI [of _ "get l \<sigma>"]) (simp add: relax_on_sim outcome_def)
  next
    case (Inr st1)
    from Cons.IH [of "put l st1 \<sigma>"] obtain st'' where
      a: "relax_all_on l u es (put l st1 \<sigma>) = (outcome (relax_all u es st1), put l st'' \<sigma>)"
      and b: "\<forall>st'. relax_all u es st1 = Inr st' \<longrightarrow> st'' = st'"
      by auto
    from Inr a have "relax_all_on l u (e # es) \<sigma>
        = (outcome (relax_all u (e # es) (get l \<sigma>)), put l st'' \<sigma>)"
      by (simp add: relax_on_sim)
    with Inr b show ?thesis by auto
  qed
qed

lemma step_on_sim:
  "\<exists>st''. step_on self l \<sigma> = (outcome (step (graph_at \<sigma> self) (get l \<sigma>)), put l st'' \<sigma>)
          \<and> (\<forall>st'. step (graph_at \<sigma> self) (get l \<sigma>) = Inr st' \<longrightarrow> st'' = st')"
proof (cases "heappop (heap_at \<sigma> (heap_ref l))")
  case (Inl err)
  then have "step_on self l \<sigma> = (Some err, \<sigma>)"
    "step (graph_at \<sigma> self) (get l \<sigma>) = Inl err"
    by (simp_all add: step_on_def step_def get_def)
  then show ?thesis
    by (intro exI [of _ "get l \<sigma>"]) (simp add: outcome_def)
next
  case (Inr r)
  obtain it h' where r: "r = (it, h')" by (cases r)
  let ?st = "get l \<sigma>"
  have pop: "heappop (heap ?st) = Inr (it, h')" using Inr r by (simp add: get_def)
  have s1: "\<sigma>\<lparr>heap_at := (heap_at \<sigma>)(heap_ref l := h')\<rparr> = put l (?st\<lparr>heap := h'\<rparr>) \<sigma>"
    by (simp add: put_def get_def)
  show ?thesis
  proof (cases "node it \<in> visited_nodes ?st")
    case True
    then have "step_on self l \<sigma> = (None, put l (?st\<lparr>heap := h'\<rparr>) \<sigma>)"
      using Inr r s1 by (simp add: step_on_def Let_def get_def)
    moreover have "step (graph_at \<sigma> self) ?st = Inr (?st\<lparr>heap := h'\<rparr>)"
      using True pop by (simp add: step_def)
    ultimately show ?thesis by (auto simp: outcome_def)
  next
    case False
    let ?st2 = "?st\<lparr>heap := h', visited_nodes := insert (node it) (visited_nodes ?st)\<rparr>"
    let ?\<sigma>2 = "put l ?st2 \<sigma>"
    have s2: "\<sigma>\<lparr>heap_at := (heap_at \<sigma>)(heap_ref l := h'),
               set_at := (set_at \<sigma>)(visited_nodes_ref l :=
                           insert (node it) (set_at \<sigma> (visited_nodes_ref l)))\<rparr> = ?\<sigma>2"
      by (simp add: put_def get_def)
    have a: "step_on self l \<sigma>
        = relax_all_on l (node it) (neighbors (graph_at \<sigma> self) (node it)) ?\<sigma>2"
      using False Inr r s2 by (simp add: step_on_def Let_def get_def)
    have b: "step (graph_at \<sigma> self) ?st
        = relax_all (node it) (neighbors (graph_at \<sigma> self) (node it)) ?st2"
      using False pop by (simp add: step_def Let_def)
    from relax_all_on_sim [of l "node it" "neighbors (graph_at \<sigma> self) (node it)" ?\<sigma>2]
    show ?thesis unfolding a b by simp
  qed
qed

lemma step_on_None:
  assumes "step_on self l \<sigma> = (None, \<sigma>')"
  obtains st' where "step (graph_at \<sigma> self) (get l \<sigma>) = Inr st'" "\<sigma>' = put l st' \<sigma>"
proof -
  from step_on_sim [of self l \<sigma>] assms obtain st'' where
    a: "outcome (step (graph_at \<sigma> self) (get l \<sigma>)) = None" "\<sigma>' = put l st'' \<sigma>"
    and b: "\<forall>st'. step (graph_at \<sigma> self) (get l \<sigma>) = Inr st' \<longrightarrow> st'' = st'"
    by auto
  from a(1) obtain st' where "step (graph_at \<sigma> self) (get l \<sigma>) = Inr st'"
    by (cases "step (graph_at \<sigma> self) (get l \<sigma>)") (simp_all add: outcome_def)
  with a(2) b that show ?thesis by auto
qed

text \<open>The \<^verbatim>\<open>while heap:\<close> loop of lines 31 to 43 on the store. It ends for the same reason
  as \<open>dijkstra_loop\<close>.\<close>

function loop_on :: "nat \<Rightarrow> locals \<Rightarrow> store \<Rightarrow> error option \<times> store" where
  "loop_on self l \<sigma> =
     (if heap_at \<sigma> (heap_ref l) = [] then (None, \<sigma>)
      else case step_on self l \<sigma> of
             (Some err, \<sigma>') \<Rightarrow> (Some err, \<sigma>')
           | (None, \<sigma>') \<Rightarrow> loop_on self l \<sigma>')"
  by pat_completeness auto
termination
proof (relation "measures [\<lambda>(self, l, \<sigma>). card (fst ` set (graph_at \<sigma> self) - set_at \<sigma> (visited_nodes_ref l)),
                            \<lambda>(self, l, \<sigma>). length (heap_at \<sigma> (heap_ref l))]", goal_cases)
  case 1
  show ?case by simp
next
  case (2 self l \<sigma> x1 x2)
  then have "step_on self l \<sigma> = (None, x2)" by simp
  then obtain st' where st': "step (graph_at \<sigma> self) (get l \<sigma>) = Inr st'" "x2 = put l st' \<sigma>"
    by (rule step_on_None)
  from step_decreases [OF st'(1)] st'(2) show ?case
    by (auto simp: get_def put_def)
qed

declare loop_on.simps [simp del]

lemma loop_on_sim:
  "\<exists>st''. loop_on self l \<sigma> = (outcome (dijkstra_loop (graph_at \<sigma> self) (get l \<sigma>)), put l st'' \<sigma>)
          \<and> (\<forall>st'. dijkstra_loop (graph_at \<sigma> self) (get l \<sigma>) = Inr st' \<longrightarrow> st'' = st')"
proof (induction self l \<sigma> rule: loop_on.induct)
  case (1 self l \<sigma>)
  let ?g = "graph_at \<sigma> self"
  have L: "loop_on self l \<sigma> =
     (if heap_at \<sigma> (heap_ref l) = [] then (None, \<sigma>)
      else case step_on self l \<sigma> of
             (Some err, \<sigma>') \<Rightarrow> (Some err, \<sigma>')
           | (None, \<sigma>') \<Rightarrow> loop_on self l \<sigma>')"
    by (rule loop_on.simps)
  have P: "dijkstra_loop ?g (get l \<sigma>) =
     (if heap (get l \<sigma>) = [] then Inr (get l \<sigma>)
      else case step ?g (get l \<sigma>) of Inl err \<Rightarrow> Inl err | Inr st' \<Rightarrow> dijkstra_loop ?g st')"
    by (rule dijkstra_loop.simps)
  have hp: "heap (get l \<sigma>) = heap_at \<sigma> (heap_ref l)" by (simp add: get_def)
  show ?case
  proof (cases "heap_at \<sigma> (heap_ref l) = []")
    case True
    then show ?thesis
      by (intro exI [of _ "get l \<sigma>"]) (simp add: L P hp outcome_def)
  next
    case False
    from step_on_sim [of self l \<sigma>] obtain st1 where
      a: "step_on self l \<sigma> = (outcome (step ?g (get l \<sigma>)), put l st1 \<sigma>)"
      and b: "\<forall>st'. step ?g (get l \<sigma>) = Inr st' \<longrightarrow> st1 = st'"
      by auto
    show ?thesis
    proof (cases "step ?g (get l \<sigma>)")
      case (Inl err)
      with a False show ?thesis
        by (intro exI [of _ st1]) (simp add: L P hp outcome_def)
    next
      case (Inr st')
      with b have st1: "st1 = st'" by simp
      from a Inr st1 have so: "step_on self l \<sigma> = (None, put l st' \<sigma>)"
        by (simp add: outcome_def)
      from "1.IH" [OF False so [symmetric] refl] obtain st'' where
        c: "loop_on self l (put l st' \<sigma>) = (outcome (dijkstra_loop ?g st'), put l st'' \<sigma>)"
        and d: "\<forall>st2. dijkstra_loop ?g st' = Inr st2 \<longrightarrow> st'' = st2"
        by auto
      from c d False Inr so show ?thesis
        by (intro exI [of _ st'']) (simp add: L P hp)
    qed
  qed
qed

text \<open>
  \<^verbatim>\<open>Graph.dijkstra\<close> as a call on the \<^verbatim>\<open>Graph\<close> object at address \<open>self\<close>, lines 25 to 45: lines
  25, 26, 28 and 29 create four new objects, line 27 writes \<^verbatim>\<open>distances[start] = 0\<close> into the
  first, the loop works on them, and line 45 returns the two tables by reference (their
  addresses). The heap and the set stay behind in the store.
\<close>

definition dijkstra_call :: "nat \<Rightarrow> node \<Rightarrow> store \<Rightarrow> (error + nat \<times> nat) \<times> store" where
  "dijkstra_call self start \<sigma>0 =
     (let (d, \<sigma>1) = new_dist (map_of (map (\<lambda>(n, es). (n, Infty)) (graph_at \<sigma>0 self))) \<sigma>0;
          (p, \<sigma>2) = new_prev (map_of (map (\<lambda>(n, es). (n, None)) (graph_at \<sigma>1 self))) \<sigma>1;
          \<sigma>3 = \<sigma>2\<lparr>dist_at := (dist_at \<sigma>2)(d := (dist_at \<sigma>2 d)(start \<mapsto> Fin 0))\<rparr>;
          (h, \<sigma>4) = new_heap [\<lparr>distance = Fin 0, node = start\<rparr>] \<sigma>3;
          (v, \<sigma>5) = new_set {} \<sigma>4;
          l = \<lparr>distances_ref = d, previous_nodes_ref = p, heap_ref = h, visited_nodes_ref = v\<rparr>
      in case loop_on self l \<sigma>5 of
           (Some err, \<sigma>6) \<Rightarrow> (Inl err, \<sigma>6)
         | (None, \<sigma>6) \<Rightarrow> (Inr (d, p), \<sigma>6))"

text \<open>The tables a result refers to, read from a store.\<close>

definition tables ::
  "store \<Rightarrow> error + nat \<times> nat \<Rightarrow> error + (node \<rightharpoonup> dist) \<times> (node \<rightharpoonup> node option)" where
  "tables \<sigma> r = (case r of Inl err \<Rightarrow> Inl err | Inr (d, p) \<Rightarrow> Inr (dist_at \<sigma> d, prev_at \<sigma> p))"

text \<open>
  A call on any store refines \<open>dijkstra\<close> on the adjacency dict the store holds for \<open>self\<close>:
  the tables it returns, read from the store it leaves, are the tables of \<open>dijkstra\<close> (or it
  raises the same exception). It changes no adjacency dict, creates four objects, changes no
  object that existed before it, and the tables it returns are among the objects it
  created.
\<close>

lemma dijkstra_call_refines:
  assumes "dijkstra_call self start \<sigma> = (r, \<sigma>')"
  shows "tables \<sigma>' r = dijkstra (graph_at \<sigma> self) start"
    and "graph_at \<sigma>' = graph_at \<sigma>"
    and "next_addr \<sigma>' = next_addr \<sigma> + 4"
    and "a < next_addr \<sigma> \<Longrightarrow> dist_at \<sigma>' a = dist_at \<sigma> a \<and> prev_at \<sigma>' a = prev_at \<sigma> a
           \<and> heap_at \<sigma>' a = heap_at \<sigma> a \<and> set_at \<sigma>' a = set_at \<sigma> a"
    and "r = Inr (d, p) \<Longrightarrow> d < next_addr \<sigma>' \<and> p < next_addr \<sigma>'"
proof -
  let ?g = "graph_at \<sigma> self"
  let ?n = "next_addr \<sigma>"
  let ?l = "\<lparr>distances_ref = ?n, previous_nodes_ref = Suc ?n, heap_ref = Suc (Suc ?n),
             visited_nodes_ref = Suc (Suc (Suc ?n))\<rparr>"
  let ?\<sigma>5 = "\<sigma>\<lparr>next_addr := Suc (Suc (Suc (Suc ?n))),
       dist_at := (dist_at \<sigma>)(?n := (map_of (map (\<lambda>(n, es). (n, Infty)) ?g))(start \<mapsto> Fin 0)),
       prev_at := (prev_at \<sigma>)(Suc ?n := map_of (map (\<lambda>(n, es). (n, None)) ?g)),
       heap_at := (heap_at \<sigma>)(Suc (Suc ?n) := [\<lparr>distance = Fin 0, node = start\<rparr>]),
       set_at := (set_at \<sigma>)(Suc (Suc (Suc ?n)) := {})\<rparr>"
  have g5: "graph_at ?\<sigma>5 self = ?g" by simp
  have i5: "get ?l ?\<sigma>5 = init_state ?g start" by (simp add: get_def init_state_def)
  from loop_on_sim [of self ?l ?\<sigma>5] obtain st'' where
    lo: "loop_on self ?l ?\<sigma>5 = (outcome (dijkstra_loop ?g (init_state ?g start)), put ?l st'' ?\<sigma>5)"
    and fin: "\<forall>st'. dijkstra_loop ?g (init_state ?g start) = Inr st' \<longrightarrow> st'' = st'"
    unfolding g5 i5 by auto
  let ?s1 = "snd (new_dist (map_of (map (\<lambda>(n, es). (n, Infty)) ?g)) \<sigma>)"
  let ?s2 = "snd (new_prev (map_of (map (\<lambda>(n, es). (n, None)) (graph_at ?s1 self))) ?s1)"
  let ?s3 = "?s2\<lparr>dist_at := (dist_at ?s2)(?n := (dist_at ?s2 ?n)(start \<mapsto> Fin 0))\<rparr>"
  let ?s4 = "snd (new_heap [\<lparr>distance = Fin 0, node = start\<rparr>] ?s3)"
  let ?s5 = "snd (new_set {} ?s4)"
  have e5: "?s5 = ?\<sigma>5"
    by (rule store.equality) (simp_all add: new_dist_def new_prev_def new_heap_def new_set_def)
  have "dijkstra_call self start \<sigma> =
      (case loop_on self ?l ?s5 of
         (Some err, \<sigma>6) \<Rightarrow> (Inl err, \<sigma>6) | (None, \<sigma>6) \<Rightarrow> (Inr (?n, Suc ?n), \<sigma>6))"
    by (simp add: dijkstra_call_def Let_def case_prod_unfold
          new_dist_def new_prev_def new_heap_def new_set_def cong: option.case_cong)
  then have call: "dijkstra_call self start \<sigma> =
      (case outcome (dijkstra_loop ?g (init_state ?g start)) of
         Some err \<Rightarrow> Inl err | None \<Rightarrow> Inr (?n, Suc ?n), put ?l st'' ?\<sigma>5)"
    unfolding e5 lo
    by (cases "outcome (dijkstra_loop ?g (init_state ?g start))") simp_all
  from assms call have s': "\<sigma>' = put ?l st'' ?\<sigma>5"
    and r: "r = (case outcome (dijkstra_loop ?g (init_state ?g start)) of
         Some err \<Rightarrow> Inl err | None \<Rightarrow> Inr (?n, Suc ?n))"
    by simp_all
  show "tables \<sigma>' r = dijkstra (graph_at \<sigma> self) start"
  proof (cases "dijkstra_loop ?g (init_state ?g start)")
    case (Inl err)
    with r show ?thesis by (simp add: outcome_def tables_def dijkstra_def)
  next
    case (Inr st')
    with fin have "st'' = st'" by simp
    with r s' Inr show ?thesis by (simp add: outcome_def tables_def dijkstra_def put_def)
  qed
  show "graph_at \<sigma>' = graph_at \<sigma>" by (simp add: s')
  show "next_addr \<sigma>' = next_addr \<sigma> + 4" by (simp add: s')
  show "dist_at \<sigma>' a = dist_at \<sigma> a \<and> prev_at \<sigma>' a = prev_at \<sigma> a
           \<and> heap_at \<sigma>' a = heap_at \<sigma> a \<and> set_at \<sigma>' a = set_at \<sigma> a" if "a < next_addr \<sigma>"
    using that by (simp add: s' put_def)
  show "d < next_addr \<sigma>' \<and> p < next_addr \<sigma>'" if "r = Inr (d, p)"
    using that r by (auto simp: s' split: option.splits)
qed

text \<open>The call on a store that holds the graph of the one edge \<^verbatim>\<open>add_edge("A", "B", 1, True)\<close>
  at every address, and no other object yet: the tables are the first two objects created,
  and \<^verbatim>\<open>"B"\<close> is at distance 1.\<close>

definition demo_store :: store where
  "demo_store =
     \<lparr>next_addr = 0, graph_at = (\<lambda>a. add_edge [] ''A'' ''B'' 1 True), dist_at = (\<lambda>a. Map.empty),
      prev_at = (\<lambda>a. Map.empty), heap_at = (\<lambda>a. []), set_at = (\<lambda>a. {})\<rparr>"

lemma dijkstra_call_demo:
  "(let (r, \<sigma>) = dijkstra_call 0 ''A'' demo_store
    in r = Inr (0, 1)
       \<and> map (dist_at \<sigma> 0) [''A'', ''B''] = [Some (Fin 0), Some (Fin 1)]
       \<and> map (prev_at \<sigma> 1) [''A'', ''B''] = [Some None, Some (Some ''A'')])"
  by code_simp


section \<open>Claims\<close>

text \<open>
  C1. For every graph with non-negative weights and every start node \<open>s\<close>, in a run of
  \<^verbatim>\<open>dijkstra(s)\<close>: (1) every node of the visited set has a recorded distance equal to the
  true shortest-path distance from \<open>s\<close>, and that distance is the same in every later state
  of the run; (2) the recorded distance of a node never increases over the run; (3) a node
  popped from the heap and not visited yet has, at that moment, its true shortest-path
  distance recorded, and inside that iteration, after any number of relaxations of the
  \<^verbatim>\<open>for\<close> loop (also when a later relaxation raises), the distances of the visited nodes,
  the new one included, are unchanged and no distance has increased.
  Here \<open>st\<close> is any state the loop reaches from the initial state, and \<open>st'\<close> any state it
  reaches from \<open>st\<close>.
\<close>

theorem visited_distance_final:
  assumes nn: "nonneg g" and r0: "run g (init_state g s) st" and r1: "run g st st'"
  shows "(\<forall>v\<in>visited_nodes st.
            (\<exists>d. distances st v = Some (Fin d) \<and> shortest_distance g s v d)
            \<and> distances st' v = distances st v)
       \<and> (\<forall>v d. distances st v = Some d \<longrightarrow> (\<exists>d'. distances st' v = Some d' \<and> d' \<le> d))
       \<and> (\<forall>it h'. heappop (heap st) = Inr (it, h') \<longrightarrow> node it \<notin> visited_nodes st \<longrightarrow>
            (\<exists>d. distances st (node it) = Some (Fin d) \<and> shortest_distance g s (node it) d)
            \<and> (\<forall>es1 es2 st''. neighbors g (node it) = es1 @ es2 \<longrightarrow>
                  relax_all (node it) es1
                    (st\<lparr>heap := h', visited_nodes := insert (node it) (visited_nodes st)\<rparr>)
                    = Inr st'' \<longrightarrow>
                  (\<forall>v\<in>insert (node it) (visited_nodes st). distances st'' v = distances st v)
                  \<and> (\<forall>v d. distances st v = Some d \<longrightarrow>
                        (\<exists>d'. distances st'' v = Some d' \<and> d' \<le> d))))"
proof -
  have i: "inv g s st" using run_inv [OF r0 nn init_state_inv] .
  have i': "inv g s st'" using run_inv [OF r1 nn i] .
  have A: "(\<exists>d. distances st v = Some (Fin d) \<and> shortest_distance g s v d)
      \<and> distances st' v = distances st v" if v: "v \<in> visited_nodes st" for v
  proof -
    from inv_visited_shortest [OF i v]
    obtain d where d: "distances st v = Some (Fin d)" "shortest_distance g s v d" by blast
    from v run_visited_mono [OF r1] have "v \<in> visited_nodes st'" by blast
    from inv_visited_shortest [OF i' this]
    obtain d' where d': "distances st' v = Some (Fin d')" "shortest_distance g s v d'" by blast
    from shortest_distance_unique [OF d(2) d'(2)] d d'(1) show ?thesis by simp
  qed
  have B: "\<exists>d'. distances st' v = Some d' \<and> d' \<le> d" if "distances st v = Some d" for v d
    using run_mono [OF r1 that] .
  have C1: "\<exists>d. distances st (node it) = Some (Fin d) \<and> shortest_distance g s (node it) d"
    if "heappop (heap st) = Inr (it, h')" "node it \<notin> visited_nodes st" for it h'
    using popped_shortest [OF nn _ that] i by (simp add: inv_def)
  have C2: "(\<forall>v\<in>insert (node it) (visited_nodes st). distances st'' v = distances st v)
      \<and> (\<forall>v d. distances st v = Some d \<longrightarrow> (\<exists>d'. distances st'' v = Some d' \<and> d' \<le> d))"
    if pop: "heappop (heap st) = Inr (it, h')" and nv: "node it \<notin> visited_nodes st"
      and sp: "neighbors g (node it) = es1 @ es2"
      and ra: "relax_all (node it) es1
                 (st\<lparr>heap := h', visited_nodes := insert (node it) (visited_nodes st)\<rparr>) = Inr st''"
    for it h' es1 es2 st''
  proof (intro conjI ballI allI impI)
    fix v assume "v \<in> insert (node it) (visited_nodes st)"
    from visit_prefix_frame [OF nn i pop nv sp ra this]
    show "distances st'' v = distances st v" .
  next
    fix v d assume "distances st v = Some d"
    with relax_all_mono [OF ra, of v d]
    show "\<exists>d'. distances st'' v = Some d' \<and> d' \<le> d" by simp
  qed
  from A B C1 C2 show ?thesis by blast
qed

theorem visited_distance_final_witness:
  "nonneg (add_edge [] ''A'' ''B'' 1 True)
   \<and> (\<exists>st st'. run (add_edge [] ''A'' ''B'' 1 True) (init_state (add_edge [] ''A'' ''B'' 1 True) ''A'') st
         \<and> run (add_edge [] ''A'' ''B'' 1 True) st st'
         \<and> ''A'' \<in> visited_nodes st
         \<and> (\<exists>d. distances st ''A'' = Some (Fin d) \<and> shortest_distance (add_edge [] ''A'' ''B'' 1 True) ''A'' ''A'' d)
         \<and> distances st' ''A'' = distances st ''A''
         \<and> ''B'' \<in> visited_nodes st')"
proof -
  let ?g = "add_edge [] ''A'' ''B'' 1 True"
  have nn: "nonneg ?g" by code_simp
  have "(case step ?g (init_state ?g ''A'') of
           Inl e \<Rightarrow> False
         | Inr st1 \<Rightarrow> ''A'' \<in> visited_nodes st1 \<and> heap st1 \<noteq> [] \<and>
             (case step ?g st1 of Inl e \<Rightarrow> False | Inr st2 \<Rightarrow> ''B'' \<in> visited_nodes st2))"
    by code_simp
  then obtain st1 st2 where s1: "step ?g (init_state ?g ''A'') = Inr st1"
    and v1: "''A'' \<in> visited_nodes st1" and h1: "heap st1 \<noteq> []"
    and s2: "step ?g st1 = Inr st2" and v2: "''B'' \<in> visited_nodes st2"
    by (auto split: sum.splits)
  have h0: "heap (init_state ?g ''A'') \<noteq> []" by (simp add: init_state_def)
  have r1: "run ?g (init_state ?g ''A'') st1" using run_step [OF run_refl h0 s1] .
  have r2: "run ?g st1 st2" using run_step [OF run_refl h1 s2] .
  from visited_distance_final [OF nn r1 r2] v1 v2 r1 r2 nn show ?thesis by blast
qed

text \<open>
  C2. The claim: for every graph with non-negative weights, \<^verbatim>\<open>dijkstra(start)\<close> raises no
  exception and its tables hold an entry for every node of the graph, neighbour targets
  included. The code builds the tables from the adjacency keys only: on the graph of the
  single directed edge \<^verbatim>\<open>add_edge("A", "B", 1)\<close>, \<^verbatim>\<open>dijkstra("A")\<close> raises
  \<^verbatim>\<open>KeyError("B")\<close> at \<^verbatim>\<open>distances[neighbor]\<close>.
\<close>

theorem dijkstra_target_only_KeyError:
  "dijkstra (add_edge [] ''A'' ''B'' 1 False) ''A'' = Inl (KeyError ''B'')"
proof -
  have "(case dijkstra (add_edge [] ''A'' ''B'' 1 False) ''A'' of
           Inl e \<Rightarrow> e = KeyError ''B'' | Inr r \<Rightarrow> False)"
    by code_simp
  then show ?thesis
    by (cases "dijkstra (add_edge [] ''A'' ''B'' 1 False) ''A''") simp_all
qed

text \<open>
  C3. On the demo graph (the seven edges of \<^verbatim>\<open>GraphDemo._load_edges\<close>, each added with
  \<^verbatim>\<open>bidirectional=True\<close>), \<^verbatim>\<open>dijkstra("A")\<close> returns the distance table A=0, B=4, C=2, D=9,
  E=5, F=20 (these six entries and no other), and \<^verbatim>\<open>shortest_path("A", "D")\<close> returns
  \<^verbatim>\<open>["A", "C", "E", "D"]\<close>.
\<close>

theorem demo_graph_results:
  "\<exists>previous.
     dijkstra demo_graph ''A'' =
       Inr ([''A'' \<mapsto> Fin 0, ''B'' \<mapsto> Fin 4, ''C'' \<mapsto> Fin 2, ''D'' \<mapsto> Fin 9,
             ''E'' \<mapsto> Fin 5, ''F'' \<mapsto> Fin 20], previous)
   \<and> shortest_path demo_graph ''A'' ''D'' = Some (Inr [''A'', ''C'', ''E'', ''D''])"
proof -
  have nn: "nonneg demo_graph" by code_simp
  have keys: "fst ` set demo_graph = {''A'', ''B'', ''C'', ''D'', ''E'', ''F''}" by code_simp
  have "(case dijkstra demo_graph ''A'' of
           Inl e \<Rightarrow> False
         | Inr (d, p) \<Rightarrow>
             map d [''A'', ''B'', ''C'', ''D'', ''E'', ''F''] =
             [Some (Fin 0), Some (Fin 4), Some (Fin 2), Some (Fin 9), Some (Fin 5), Some (Fin 20)])"
    by code_simp
  then obtain d p where r: "dijkstra demo_graph ''A'' = Inr (d, p)"
    and v: "d ''A'' = Some (Fin 0)" "d ''B'' = Some (Fin 4)" "d ''C'' = Some (Fin 2)"
      "d ''D'' = Some (Fin 9)" "d ''E'' = Some (Fin 5)" "d ''F'' = Some (Fin 20)"
    by (cases "dijkstra demo_graph ''A''") auto
  from dijkstra_dom [OF nn r] keys
  have dm: "dom d = {''A'', ''B'', ''C'', ''D'', ''E'', ''F''}" by simp
  have "d = [''A'' \<mapsto> Fin 0, ''B'' \<mapsto> Fin 4, ''C'' \<mapsto> Fin 2, ''D'' \<mapsto> Fin 9,
             ''E'' \<mapsto> Fin 5, ''F'' \<mapsto> Fin 20]"
  proof (rule ext)
    fix x
    show "d x = [''A'' \<mapsto> Fin 0, ''B'' \<mapsto> Fin 4, ''C'' \<mapsto> Fin 2, ''D'' \<mapsto> Fin 9,
             ''E'' \<mapsto> Fin 5, ''F'' \<mapsto> Fin 20] x"
    proof (cases "x \<in> dom d")
      case True
      with dm v show ?thesis by auto
    next
      case False
      then have "d x = None" by (simp add: domIff)
      moreover from False dm have "x \<notin> {''A'', ''B'', ''C'', ''D'', ''E'', ''F''}" by simp
      ultimately show ?thesis by simp
    qed
  qed
  moreover have "shortest_path demo_graph ''A'' ''D'' = Some (Inr [''A'', ''C'', ''E'', ''D''])"
    by code_simp
  ultimately show ?thesis using r by blast
qed

text \<open>
  C4. The claim: for non-negative weights and every \<^verbatim>\<open>end\<close> reachable from \<^verbatim>\<open>start\<close>,
  \<^verbatim>\<open>shortest_path(start, end)\<close> returns a path from \<^verbatim>\<open>start\<close> to \<^verbatim>\<open>end\<close>. On the graph of
  the single directed edge \<^verbatim>\<open>add_edge("A", "B", 1)\<close>, where B is reachable from A,
  \<^verbatim>\<open>shortest_path("A", "B")\<close> raises \<^verbatim>\<open>KeyError("B")\<close> instead of returning
  \<^verbatim>\<open>["A", "B"]\<close>.
\<close>

theorem shortest_path_target_only_KeyError:
  "shortest_path (add_edge [] ''A'' ''B'' 1 False) ''A'' ''B'' = Some (Inl (KeyError ''B''))"
  by code_simp

text \<open>
  C5. The claim: whenever the distance of \<^verbatim>\<open>end\<close> is infinite (\<^verbatim>\<open>end\<close> is unreachable from
  \<^verbatim>\<open>start\<close>, or unknown to the graph), \<^verbatim>\<open>shortest_path(start, end)\<close> returns the empty list
  and raises no exception. The code raises: on the graph of the single directed edge
  \<^verbatim>\<open>add_edge("A", "B", 1)\<close>, \<^verbatim>\<open>shortest_path("A", "Z")\<close>, with \<^verbatim>\<open>"Z"\<close> unknown to the graph,
  raises \<^verbatim>\<open>KeyError("B")\<close> inside \<^verbatim>\<open>dijkstra\<close>, at \<^verbatim>\<open>distances[neighbor]\<close>; and with
  \<^verbatim>\<open>add_edge("C", "A", 7)\<close> added, \<^verbatim>\<open>shortest_path("A", "C")\<close>, with \<^verbatim>\<open>"C"\<close> unreachable from
  \<^verbatim>\<open>"A"\<close>, raises it too.
\<close>

theorem shortest_path_unreachable_end_KeyError:
  "shortest_path (add_edge [] ''A'' ''B'' 1 False) ''A'' ''Z'' = Some (Inl (KeyError ''B''))
   \<and> shortest_path (add_edge (add_edge [] ''A'' ''B'' 1 False) ''C'' ''A'' 7 False) ''A'' ''C''
       = Some (Inl (KeyError ''B''))"
  by code_simp

text \<open>
  C6. The claim: for every graph and every start node, also one with no entry in the
  adjacency map, the tables returned by \<^verbatim>\<open>dijkstra(start)\<close> have \<^verbatim>\<open>distance[start] == 0\<close> and
  \<^verbatim>\<open>predecessor[start] == None\<close>. On the empty graph, \<^verbatim>\<open>dijkstra("A")\<close> returns the distance
  table \<^verbatim>\<open>{"A": 0}\<close> and a predecessor table with no entry for \<^verbatim>\<open>"A"\<close>: line 27 gives the
  start node its distance, and no line gives it a predecessor entry, so that
  \<^verbatim>\<open>previous_nodes["A"]\<close> raises \<^verbatim>\<open>KeyError\<close>. (In the tables of the model the lookup of a
  missing key is \<open>None\<close>, and the entry \<^verbatim>\<open>None\<close> is \<open>Some None\<close>.)
\<close>

theorem dijkstra_start_not_key_no_predecessor:
  "(case dijkstra [] ''A'' of
      Inl e \<Rightarrow> None
    | Inr (d, p) \<Rightarrow> Some (d ''A'', p ''A'')) = Some (Some (Fin 0), None)"
  by code_simp



text \<open>
  C8. Two calls of \<^verbatim>\<open>dijkstra(start)\<close> on the same \<^verbatim>\<open>Graph\<close> object with the same start node,
  the second on the store the first has left, whatever store the first call starts from:
  the tables the second call returns are identical to the tables the first call returned
  (or both calls raise the same exception); the second call does not change the tables of
  the first; no adjacency dict is changed by the two calls; and the tables are those
  of \<open>dijkstra\<close> on the adjacency dict of the object, a function of the graph and the start
  node.
\<close>

theorem dijkstra_two_calls:
  "(let (r1, \<sigma>1) = dijkstra_call self start \<sigma>;
        (r2, \<sigma>2) = dijkstra_call self start \<sigma>1
    in tables \<sigma>2 r2 = tables \<sigma>1 r1
       \<and> tables \<sigma>2 r1 = tables \<sigma>1 r1
       \<and> graph_at \<sigma>2 = graph_at \<sigma>
       \<and> tables \<sigma>1 r1 = dijkstra (graph_at \<sigma> self) start)"
proof -
  obtain r1 \<sigma>1 where c1: "dijkstra_call self start \<sigma> = (r1, \<sigma>1)"
    by (cases "dijkstra_call self start \<sigma>")
  obtain r2 \<sigma>2 where c2: "dijkstra_call self start \<sigma>1 = (r2, \<sigma>2)"
    by (cases "dijkstra_call self start \<sigma>1")
  note a = dijkstra_call_refines [OF c1]
  note b = dijkstra_call_refines [OF c2]
  have 1: "tables \<sigma>2 r2 = tables \<sigma>1 r1" using a(1,2) b(1) by simp
  have 2: "tables \<sigma>2 r1 = tables \<sigma>1 r1"
  proof (cases r1)
    case (Inl err)
    then show ?thesis by (simp add: tables_def)
  next
    case (Inr dp)
    obtain d p where dp: "dp = (d, p)" by (cases dp)
    from a(5) [of d p] Inr dp have "d < next_addr \<sigma>1" "p < next_addr \<sigma>1" by simp_all
    with b(4) [of d] b(4) [of p] Inr dp show ?thesis by (simp add: tables_def)
  qed
  have 3: "graph_at \<sigma>2 = graph_at \<sigma>" using a(2) b(2) by simp
  from 1 2 3 a(1) show ?thesis by (simp add: c1 c2)
qed

text \<open>
  C9. The claim: whenever \<^verbatim>\<open>dijkstra(start)\<close> returns, following \<^verbatim>\<open>previous_nodes\<close> from any
  node reaches \<^verbatim>\<open>None\<close> in finitely many steps, and from a node with a finite distance the
  chain ends at \<^verbatim>\<open>start\<close>. On the empty graph \<^verbatim>\<open>dijkstra("A")\<close> returns, \<^verbatim>\<open>"A"\<close> has the finite
  distance 0, and the walk of lines 54 to 56 from \<^verbatim>\<open>"A"\<close> does not reach \<^verbatim>\<open>None\<close>: it raises
  \<^verbatim>\<open>KeyError("A")\<close> at \<^verbatim>\<open>previous_nodes[current_node]\<close>, the start node having no entry in
  the predecessor table.
\<close>

theorem walk_from_start_not_key_KeyError:
  "(case dijkstra [] ''A'' of
      Inl e \<Rightarrow> None
    | Inr (d, p) \<Rightarrow> Some (d ''A'', walk p (Some ''A'') []))
   = Some (Some (Fin 0), Some (Inl (KeyError ''A'')))"
  by code_simp

text \<open>
  C10. For every node \<^verbatim>\<open>s\<close> that is not a key of the adjacency map,
  \<^verbatim>\<open>shortest_path(s, s)\<close> raises \<^verbatim>\<open>KeyError(s)\<close>: the distance of \<^verbatim>\<open>s\<close> is 0, and
  \<^verbatim>\<open>previous_nodes[s]\<close> has no entry. (The claim's further condition, that every neighbour
  target is a key, is not needed: \<^verbatim>\<open>s\<close> has no outgoing edge, so nothing is relaxed.)
\<close>

theorem shortest_path_self_not_key:
  "s \<notin> fst ` set g \<Longrightarrow> shortest_path g s s = Some (Inl (KeyError s))"
  by (simp add: shortest_path_def dijkstra_start_not_key walk.simps previous_init_not_key)

theorem shortest_path_self_not_key_witness:
  "''Z'' \<notin> fst ` set demo_graph
   \<and> shortest_path demo_graph ''Z'' ''Z'' = Some (Inl (KeyError ''Z''))"
proof -
  have "''Z'' \<notin> fst ` set demo_graph" by code_simp
  then show ?thesis using shortest_path_self_not_key [of "''Z''" demo_graph] by simp
qed

end
